theory Spec2Isabelle
  imports Complex_Main
begin

section \<open>PathConsensus: data model\<close>

text \<open>
  The development follows \<^verbatim>\<open>MergePaths/PathConsensus.cpp\<close>. Failed assertions,
  uncaught exceptions and out-of-bounds reads end the run; they are the \<open>Inl\<close> results
  of the functions below. Unsigned quantities (lengths, counters, identifiers) are
  natural numbers: none of them comes near \<open>2 ^ 32\<close> on inputs the program can hold.
  Verbose diagnostics (\<^verbatim>\<open>opt::verbose\<close>) are not part of the model.
\<close>

datatype error = AssertionFailed string | OutOfRange string | UsageError string

text \<open>
  Modelled from the spec: \<^verbatim>\<open>ContigNode.h\<close> is not part of the sources at hand. A node
  is an oriented reference to a real contig (identifier and strand) or an ambiguous
  placeholder carrying a gap length; \<open>node_id\<close> is \<^verbatim>\<open>id()\<close>, which for a
  placeholder is the gap length (the key of the registry holds the negated gap length,
  \<^verbatim>\<open>-it->id()\<close>); \<open>complement\<close> is \<^verbatim>\<open>operator~\<close>, the other strand of the
  same contig; and \<open>node_lt\<close> is \<^verbatim>\<open>operator<\<close>, a total order that tells real
  contigs from placeholders and takes the strand into account.
\<close>

datatype ContigNode = Contig nat bool | Ambiguous nat

fun ambiguous :: "ContigNode \<Rightarrow> bool" where
  "ambiguous (Ambiguous n) = True"
| "ambiguous (Contig i s) = False"

fun node_id :: "ContigNode \<Rightarrow> nat" where
  "node_id (Contig i s) = i"
| "node_id (Ambiguous n) = n"

fun sense :: "ContigNode \<Rightarrow> bool" where
  "sense (Contig i s) = s"
| "sense (Ambiguous n) = False"

fun complement :: "ContigNode \<Rightarrow> ContigNode" where
  "complement (Contig i s) = Contig i (\<not> s)"
| "complement (Ambiguous n) = Ambiguous n"

fun node_index :: "ContigNode \<Rightarrow> int" where
  "node_index (Contig i s) = 2 * int i + (if s then 1 else 0)"
| "node_index (Ambiguous n) = - int n - 1"

definition node_lt :: "ContigNode \<Rightarrow> ContigNode \<Rightarrow> bool" where
  "node_lt a b = (node_index a < node_index b)"

type_synonym ContigPath = "ContigNode list"

type_synonym ContigPaths = "ContigPath list"

record AmbPathConstraint =
  source :: ContigNode
  dest :: ContigNode
  dist :: int

text \<open>\<^verbatim>\<open>AmbPathConstraint::operator<\<close>.\<close>

definition constraint_lt :: "AmbPathConstraint \<Rightarrow> AmbPathConstraint \<Rightarrow> bool" where
  "constraint_lt a b =
     (node_lt (source a) (source b)
      \<or> (source a = source b \<and> node_lt (dest a) (dest b))
      \<or> (source a = source b \<and> dest a = dest b \<and> dist a < dist b))"

record Stats =
  numAmbPaths :: nat
  numMerged :: nat
  numNoSolutions :: nat
  numTooManySolutions :: nat
  tooComplex :: nat
  notMerged :: nat

record NewVertex =
  nv_t :: ContigNode
  nv_u :: ContigNode
  nv_v :: ContigNode
  nv_vp :: "nat \<times> nat"

text \<open>
  One record of the consensus FASTA file, as \<^verbatim>\<open>outputNewContig\<close> writes it: the
  identifier, the length, the coverage, the interior of every contributing path
  (\<open>None\<close> is the marker \<^verbatim>\<open>*\<close> of an empty interior) and the sequence.
\<close>

record FastaRecord =
  fa_id :: nat
  fa_length :: nat
  fa_coverage :: nat
  fa_paths :: "ContigPath option list"
  fa_seq :: string

text \<open>
  What the program says to its collaborators and to the operator: the warnings on the
  error stream, and the calls of the constrained search and of the two alignment
  procedures.
\<close>

datatype event =
    MismatchWarning ContigNode string string ContigPath
  | TransitiveEdgeWarning ContigPath ContigPath
  | SearchCall ContigNode "(ContigNode \<times> int) list"
  | AlignGlobalCall string string
  | DialignCall "string list"

text \<open>
  The options of the run and the collaborators that live outside this file: the
  contig sequences, the edge distances and path coverage of the graph, the constrained
  search (its candidate paths and its count of visited vertices), the pairwise
  alignment (matches, alignment length, consensus), the multiple alignment (consensus,
  matches), the reverse complement, and the sequence of an ambiguous node.
  The identity threshold \<^verbatim>\<open>opt::identity\<close> is a \<^verbatim>\<open>float\<close>: \<open>opt_identity\<close> is the
  rational number that this float holds (for the default \<^verbatim>\<open>0.9\<close>, the single-precision
  number nearest to nine tenths).
\<close>

record env =
  opt_k :: nat
  opt_identity :: rat
  opt_numBranches :: nat
  opt_distanceError :: nat
  opt_maxCost :: nat
  g_contigs :: "string list"
  edgeDistance :: "ContigNode \<Rightarrow> ContigNode \<Rightarrow> int option"
  pathCoverage :: "ContigPath \<Rightarrow> nat"
  constrainedSearch :: "ContigNode \<Rightarrow> (ContigNode \<times> int) list \<Rightarrow> ContigPaths \<times> nat"
  alignGlobal :: "string \<Rightarrow> string \<Rightarrow> nat \<times> nat \<times> string"
  dialign :: "string list \<Rightarrow> string \<times> nat"
  reverseComplement :: "string \<Rightarrow> string"
  ambiguousSequence :: "ContigNode \<Rightarrow> string"

text \<open>
  The mutable state outside the registry: the run counters, the vertices to add to the
  graph at the end, the consensus FASTA file, the next fresh contig identifier and the
  events so far.
\<close>

record world =
  stats :: Stats
  g_newVertices :: "NewVertex list"
  fasta :: "FastaRecord list"
  nextContigID :: nat
  events :: "event list"

section \<open>Characters\<close>

text \<open>
  \<^verbatim>\<open>islower\<close>, \<^verbatim>\<open>toupper\<close> and \<^verbatim>\<open>tolower\<close> of the C library, in the C locale:
  only the 26 ASCII letters have a case.
\<close>

definition islower :: "char \<Rightarrow> bool" where
  "islower c = (97 \<le> (of_char c :: nat) \<and> (of_char c :: nat) \<le> 122)"

definition isupper :: "char \<Rightarrow> bool" where
  "isupper c = (65 \<le> (of_char c :: nat) \<and> (of_char c :: nat) \<le> 90)"

definition toupper :: "char \<Rightarrow> char" where
  "toupper c = (if islower c then char_of ((of_char c :: nat) - 32) else c)"

definition tolower :: "char \<Rightarrow> char" where
  "tolower c = (if isupper c then char_of ((of_char c :: nat) + 32) else c)"

section \<open>Sequence merger\<close>

text \<open>
  The loop of \<^verbatim>\<open>createConsensus\<close> over the two sequences in step; \<open>s\<close> is the
  consensus built so far. A conflict ends the loop with the empty string.
\<close>

fun consensusLoop :: "(char \<times> char) list \<Rightarrow> string \<Rightarrow> string" where
  "consensusLoop [] s = s"
| "consensusLoop ((a, b) # rest) s =
     (let mask = (islower a \<or> islower b);
          ca = toupper a;
          cb = toupper b;
          c = (if ca = cb then ca
               else if ca = CHR ''N'' then cb
               else if cb = CHR ''N'' then ca
               else CHR ''x'')
      in if c = CHR ''x'' then []
         else consensusLoop rest (s @ [if mask then tolower c else c]))"

definition createConsensus :: "string \<Rightarrow> string \<Rightarrow> error + string" where
  "createConsensus a b =
     (if length a \<noteq> length b then Inl (AssertionFailed ''a.length() == b.length()'')
      else if a = b then Inr a
      else Inr (consensusLoop (zip a b) []))"

text \<open>
  Modelled from the spec: \<^verbatim>\<open>chomp\<close> of \<^verbatim>\<open>StringUtil.h\<close> is not part of the sources at
  hand. It trims exactly one trailing character if that character is \<open>c\<close>, and tells
  whether it did.
\<close>

definition chomp :: "string \<Rightarrow> char \<Rightarrow> bool \<times> string" where
  "chomp s c = (if s \<noteq> [] \<and> last s = c then (True, butlast s) else (False, s))"

text \<open>
  The \<^verbatim>\<open>do ... while\<close> loop of \<^verbatim>\<open>mergeContigs\<close>; it returns the trimmed \<open>seq\<close>,
  the last \<open>ao\<close> and the last overlap consensus \<open>ov\<close> (\<^verbatim>\<open>o\<close> in the source).
\<close>

function mergeLoop :: "nat \<Rightarrow> string \<Rightarrow> string \<Rightarrow> error + (string \<times> string \<times> string)" where
  "mergeLoop overlap seq bo =
     (if \<not> length seq > overlap then Inl (AssertionFailed ''seq.length() > overlap'')
      else
        let ao = drop (length seq - overlap) seq in
        case createConsensus ao bo of
          Inl e \<Rightarrow> Inl e
        | Inr ov \<Rightarrow>
            if ov = [] \<and> fst (chomp seq CHR ''n'')
            then mergeLoop overlap (snd (chomp seq CHR ''n'')) bo
            else Inr (seq, ao, ov))"
  by pat_completeness auto
termination
  by (relation "measure (\<lambda>(overlap, seq, bo). length seq)")
     (auto simp: chomp_def split: if_splits)

definition mergeContigs ::
  "nat \<Rightarrow> string \<Rightarrow> string \<Rightarrow> ContigNode \<Rightarrow> ContigPath \<Rightarrow> world \<Rightarrow> error + (string \<times> world)" where
  "mergeContigs overlap seq s node path w =
     (if \<not> length s > overlap then Inl (AssertionFailed ''s.length() > overlap'')
      else
        case mergeLoop overlap seq (take overlap s) of
          Inl e \<Rightarrow> Inl e
        | Inr (seq', ao, ov) \<Rightarrow>
            if ov = []
            then Inr (seq' @ [CHR ''n''] @ s,
                      w\<lparr>events := events w @ [MismatchWarning node ao (take overlap s) path]\<rparr>)
            else Inr (take (length seq' - overlap) seq' @ ov @ drop overlap s, w))"

text \<open>
  \<^verbatim>\<open>getSequence\<close>. Reading \<^verbatim>\<open>g_contigs\<close> past its end is undefined in the source
  and ends the run here. \<^verbatim>\<open>opt::k - 1\<close> is computed where \<open>k\<close> is positive:
  \<^verbatim>\<open>main\<close> refuses \<open>k = 0\<close>.
\<close>

definition getSequence :: "env \<Rightarrow> ContigNode \<Rightarrow> error + string" where
  "getSequence e n =
     (if ambiguous n then
        let s = ambiguousSequence e n;
            s' = (if length s < opt_k e then map tolower s else s)
        in Inr (replicate (opt_k e - 1) CHR ''N'' @ s')
      else if node_id n < length (g_contigs e) then
        let seq = g_contigs e ! node_id n
        in Inr (if sense n then reverseComplement e seq else seq)
      else Inl (OutOfRange ''g_contigs[id.id()]''))"

text \<open>
  The loop of \<^verbatim>\<open>mergePath\<close>; \<open>prev\<close> is \<^verbatim>\<open>*(it-1)\<close>, absent at the first node.
  An edge that the graph does not have fails the graph library's own assertion.
\<close>

fun mergePathLoop ::
  "env \<Rightarrow> ContigPath \<Rightarrow> ContigNode option \<Rightarrow> ContigPath \<Rightarrow> string \<Rightarrow> world
   \<Rightarrow> error + (string \<times> world)" where
  "mergePathLoop e path prev [] seq w = Inr (seq, w)"
| "mergePathLoop e path prev (n # rest) seq w =
     (if seq = [] then
        (case getSequence e n of
           Inl err \<Rightarrow> Inl err
         | Inr s \<Rightarrow> mergePathLoop e path (Some n) rest s w)
      else
        (case prev of
           None \<Rightarrow> Inl (OutOfRange ''*(it-1)'')
         | Some p \<Rightarrow>
             (case edgeDistance e p n of
                None \<Rightarrow> Inl (AssertionFailed ''edge'')
              | Some d \<Rightarrow>
                  if \<not> d < 0 then Inl (AssertionFailed ''d < 0'')
                  else
                    (case getSequence e n of
                       Inl err \<Rightarrow> Inl err
                     | Inr s \<Rightarrow>
                         (case mergeContigs (nat (- d)) seq s n path w of
                            Inl err \<Rightarrow> Inl err
                          | Inr (seq', w') \<Rightarrow> mergePathLoop e path (Some n) rest seq' w')))))"

definition mergePath :: "env \<Rightarrow> ContigPath \<Rightarrow> world \<Rightarrow> error + (string \<times> world)" where
  "mergePath e path w = mergePathLoop e path None path [] w"

definition calculatePathCoverage :: "env \<Rightarrow> ContigPath \<Rightarrow> nat" where
  "calculatePathCoverage e path = pathCoverage e path"

section \<open>Contig synthesizer\<close>

text \<open>
  The provenance of one contributing path in \<^verbatim>\<open>outputNewContig\<close>: the nodes between
  the common prefix and the common suffix, or the marker when there is none.
\<close>

definition provenance :: "nat \<Rightarrow> nat \<Rightarrow> ContigPath \<Rightarrow> error + ContigPath option" where
  "provenance longestPrefix longestSuffix path =
     (if \<not> longestPrefix + longestSuffix \<le> length path
      then Inl (AssertionFailed ''first <= last'')
      else if longestPrefix < length path - longestSuffix
      then Inr (Some (take (length path - longestSuffix - longestPrefix)
                        (drop longestPrefix path)))
      else Inr None)"

fun provenances :: "nat \<Rightarrow> nat \<Rightarrow> ContigPaths \<Rightarrow> error + ContigPath option list" where
  "provenances lp ls [] = Inr []"
| "provenances lp ls (p # ps) =
     (case provenance lp ls p of
        Inl err \<Rightarrow> Inl err
      | Inr x \<Rightarrow>
          (case provenances lp ls ps of
             Inl err \<Rightarrow> Inl err
           | Inr xs \<Rightarrow> Inr (x # xs)))"

definition outputNewContig ::
  "ContigPaths \<Rightarrow> nat \<Rightarrow> nat \<Rightarrow> string \<Rightarrow> nat \<Rightarrow> world \<Rightarrow> error + (nat \<times> world)" where
  "outputNewContig solutions longestPrefix longestSuffix seq coverage w =
     (if solutions = [] then Inl (AssertionFailed ''!solutions.empty()'')
      else if \<not> longestPrefix > 0 then Inl (AssertionFailed ''longestPrefix > 0'')
      else if \<not> longestSuffix > 0 then Inl (AssertionFailed ''longestSuffix > 0'')
      else
        let new_id = nextContigID w;
            sol0 = hd solutions
        in if \<not> longestPrefix - 1 < length sol0
           then Inl (OutOfRange ''solutions[0].begin() + longestPrefix - 1'')
           else if \<not> longestSuffix - 1 < length sol0
           then Inl (OutOfRange ''solutions[0].rbegin() + longestSuffix - 1'')
           else
             (case provenances longestPrefix longestSuffix solutions of
                Inl err \<Rightarrow> Inl err
              | Inr ps \<Rightarrow>
                  Inr (new_id,
                       w\<lparr>nextContigID := Suc new_id,
                         g_newVertices := g_newVertices w @
                           [\<lparr>nv_t = sol0 ! (longestPrefix - 1),
                             nv_u = Contig new_id False,
                             nv_v = sol0 ! (length sol0 - longestSuffix),
                             nv_vp = (length seq, coverage)\<rparr>],
                         fasta := fasta w @
                           [\<lparr>fa_id = new_id, fa_length = length seq,
                             fa_coverage = coverage, fa_paths = ps, fa_seq = seq\<rparr>]\<rparr>)))"

section \<open>Pairwise consensus builder\<close>

text \<open>
  Single-precision arithmetic, as far as the source uses it: IEEE 754 binary32 with
  rounding to nearest, ties to even, each operation rounded on its own. A finite
  number is a significand and an exponent of two. \<open>round32 p q\<close> is the binary32
  number nearest to the fraction \<open>p / q\<close>: the fraction is scaled by a power of two
  into the 24-bit range of the significand, by the bit lengths of \<open>p\<close> and \<open>q\<close>, and
  divided with rounding. The magnitudes that occur, lengths below \<open>2 ^ 32\<close> and their
  quotients, lie in the normal range of the format.
\<close>

function bit_length :: "nat \<Rightarrow> nat" where
  "bit_length n = (if n = 0 then 0 else Suc (bit_length (n div 2)))"
  by pat_completeness auto
termination
  by (relation "measure (\<lambda>n. n)") auto

definition pow2 :: "int \<Rightarrow> rat" where
  "pow2 i = (if 0 \<le> i then 2 ^ nat i else 1 / 2 ^ nat (- i))"

definition round_half_even_div :: "nat \<Rightarrow> nat \<Rightarrow> nat" where
  "round_half_even_div p q =
     (let d = p div q; r = p mod q
      in if 2 * r < q then d else if q < 2 * r then d + 1 else if even d then d else d + 1)"

type_synonym float32 = "nat \<times> int"

definition float_value :: "float32 \<Rightarrow> rat" where
  "float_value x = of_nat (fst x) * pow2 (snd x)"

definition round32 :: "nat \<Rightarrow> nat \<Rightarrow> float32" where
  "round32 p q =
     (if p = 0 then (0, 0)
      else
        let k = int (bit_length p) - int (bit_length q);
            p' = (if k \<le> 24 then p * 2 ^ nat (24 - k) else p);
            q' = (if k \<le> 24 then q else q * 2 ^ nat (k - 24))
        in if 2 ^ 24 * q' \<le> p'
           then (round_half_even_div p' (2 * q'), k - 23)
           else (round_half_even_div p' q', k - 24))"

text \<open>The conversion \<^verbatim>\<open>(float)n\<close> of an unsigned number, and the division of two floats.\<close>

definition float_of_nat :: "nat \<Rightarrow> float32" where
  "float_of_nat n = round32 n 1"

definition float_div :: "float32 \<Rightarrow> float32 \<Rightarrow> float32" where
  "float_div a b =
     (case round32 (fst a) (fst b) of (m, ex) \<Rightarrow> (m, ex + snd a - snd b))"

text \<open>
  The quotient \<^verbatim>\<open>(float)num / den\<close>: both operands are converted to \<^verbatim>\<open>float\<close> and the
  division is rounded. With \<open>den = 0\<close> the quotient of the source is infinite or not a
  number, for which every comparison made below is false: that is \<open>None\<close>.
\<close>

definition float_quotient :: "nat \<Rightarrow> nat \<Rightarrow> rat option" where
  "float_quotient num den =
     (if den = 0 then None
      else Some (float_value (float_div (float_of_nat num) (float_of_nat den))))"

text \<open>The comparison \<^verbatim>\<open>(float)num / den < opt::identity\<close>.\<close>

definition ratio_below :: "env \<Rightarrow> nat \<Rightarrow> nat \<Rightarrow> bool" where
  "ratio_below e num den =
     (case float_quotient num den of None \<Rightarrow> False | Some r \<Rightarrow> r < opt_identity e)"

text \<open>
  The \<^verbatim>\<open>mismatch\<close> of the palindrome branch and the three assertions after it:
  the paths differ somewhere, the first nodes that differ are each other's complement,
  and the paths agree after them.
\<close>

definition palindrome_check :: "ContigPath \<Rightarrow> ContigPath \<Rightarrow> error + unit" where
  "palindrome_check fstSol sndSol =
     (case dropWhile (\<lambda>(a, b). a = b) (zip fstSol sndSol) of
        [] \<Rightarrow> Inl (AssertionFailed ''it.first != fstSol.end()'')
      | (a, b) # rest \<Rightarrow>
          if a \<noteq> complement b then Inl (AssertionFailed ''*it.first == ~*it.second'')
          else if \<not> list_all (\<lambda>(a, b). a = b) rest
          then Inl (AssertionFailed ''equal(it.first+1, It(fstSol.end()), it.second+1)'')
          else Inr ())"

definition alignPair :: "env \<Rightarrow> ContigPaths \<Rightarrow> world \<Rightarrow> error + (ContigPath \<times> world)" where
  "alignPair e solutions w =
     (if length solutions \<noteq> 2 then Inl (AssertionFailed ''solutions.size() == 2'')
      else if \<not> length (solutions ! 0) > 1 then Inl (AssertionFailed ''solutions[0].size() > 1'')
      else if \<not> length (solutions ! 1) > 1 then Inl (AssertionFailed ''solutions[1].size() > 1'')
      else if hd (solutions ! 0) \<noteq> hd (solutions ! 1)
      then Inl (AssertionFailed ''solutions[0].front() == solutions[1].front()'')
      else if last (solutions ! 0) \<noteq> last (solutions ! 1)
      then Inl (AssertionFailed ''solutions[0].back() == solutions[1].back()'')
      else
        let fstSol = butlast (tl (solutions ! 0));
            sndSol = butlast (tl (solutions ! 1))
        in
        if fstSol = [] \<or> sndSol = [] then
          (let sol = (if fstSol = [] then sndSol else fstSol) in
           if sol = [] then Inl (AssertionFailed ''!sol.empty()'')
           else
             (case mergePath e sol w of
                Inl err \<Rightarrow> Inl err
              | Inr (merged, w1) \<Rightarrow>
                  if \<not> length merged > opt_k e - 1
                  then Inl (AssertionFailed ''consensus.size() > opt::k - 1'')
                  else
                    let consensus = take (opt_k e - 1) merged
                                    @ map tolower (drop (opt_k e - 1) merged);
                        match = opt_k e - 1
                    in if ratio_below e match (length consensus) then Inr ([], w1)
                       else
                         (case outputNewContig solutions 1 1 consensus
                                 (calculatePathCoverage e sol) w1 of
                            Inl err \<Rightarrow> Inl err
                          | Inr (new_id, w2) \<Rightarrow>
                              Inr ([hd (hd solutions), Contig new_id False,
                                    last (hd solutions)], w2))))
        else
          (case mergePath e fstSol w of
             Inl err \<Rightarrow> Inl err
           | Inr (fstPathContig, w1) \<Rightarrow>
          (case mergePath e sndSol w1 of
             Inl err \<Rightarrow> Inl err
           | Inr (sndPathContig, w2) \<Rightarrow>
               if fstPathContig = sndPathContig then
                 (if length fstSol = length sndSol then
                    (case palindrome_check fstSol sndSol of
                       Inl err \<Rightarrow> Inl err
                     | Inr u \<Rightarrow> Inr (solutions ! 0, w2))
                  else
                    Inr (solutions ! (if length fstSol > length sndSol then 0 else 1),
                         w2\<lparr>events := events w2 @ [TransitiveEdgeWarning fstSol sndSol]\<rparr>))
               else
                 let minLength = min (length fstPathContig) (length sndPathContig);
                     maxLength = max (length fstPathContig) (length sndPathContig)
                 in
                 if ratio_below e minLength maxLength then Inr ([], w2)
                 else
                   (case alignGlobal e fstPathContig sndPathContig of
                      (match, align_size, align_consensus) \<Rightarrow>
                        let w3 = w2\<lparr>events := events w2
                                       @ [AlignGlobalCall fstPathContig sndPathContig]\<rparr>
                        in
                        if ratio_below e match align_size then Inr ([], w3)
                        else
                          (case outputNewContig solutions 1 1 align_consensus
                                  (calculatePathCoverage e fstSol
                                   + calculatePathCoverage e sndSol) w3 of
                             Inl err \<Rightarrow> Inl err
                           | Inr (new_id, w4) \<Rightarrow>
                               Inr ([hd (hd solutions), Contig new_id False,
                                     last (hd solutions)], w4))))))"

section \<open>Multi consensus builder\<close>

text \<open>The two scanning loops of \<^verbatim>\<open>alignMulti\<close>, from the front and from the back.\<close>

function longestPrefixLoop :: "ContigPaths \<Rightarrow> nat \<Rightarrow> nat \<Rightarrow> nat" where
  "longestPrefixLoop solutions min_len longestPrefix =
     (if longestPrefix < min_len
         \<and> list_all (\<lambda>sol. sol ! longestPrefix = hd solutions ! longestPrefix) solutions
      then longestPrefixLoop solutions min_len (Suc longestPrefix)
      else longestPrefix)"
  by pat_completeness auto
termination
  by (relation "measure (\<lambda>(solutions, min_len, longestPrefix). min_len - longestPrefix)") auto

function longestSuffixLoop :: "ContigPaths \<Rightarrow> nat \<Rightarrow> nat \<Rightarrow> nat" where
  "longestSuffixLoop solutions bound longestSuffix =
     (if longestSuffix < bound
         \<and> list_all (\<lambda>sol. sol ! (length sol - longestSuffix - 1)
                           = hd solutions ! (length (hd solutions) - longestSuffix - 1))
              solutions
      then longestSuffixLoop solutions bound (Suc longestSuffix)
      else longestSuffix)"
  by pat_completeness auto
termination
  by (relation "measure (\<lambda>(solutions, bound, longestSuffix). bound - longestSuffix)") auto

text \<open>
  The loop that collects the sequences of the ambiguous region, with the coverage it
  sums. \<^verbatim>\<open>s.substr(s.length() - opt::k + 1)\<close> throws when the position is past the
  end of \<open>s\<close>.
\<close>

fun ambSeqsLoop ::
  "env \<Rightarrow> ContigPaths \<Rightarrow> nat \<Rightarrow> nat \<Rightarrow> ContigPaths \<Rightarrow> string list \<Rightarrow> nat \<Rightarrow> world
   \<Rightarrow> error + (string list \<times> nat \<times> world)" where
  "ambSeqsLoop e solutions lp ls [] amb_seqs coverage w = Inr (amb_seqs, coverage, w)"
| "ambSeqsLoop e solutions lp ls (sol # rest) amb_seqs coverage w =
     (if \<not> lp + ls \<le> length sol
      then Inl (AssertionFailed ''longestPrefix + longestSuffix <= solIter->size()'')
      else
        let path = take (length sol - ls - lp) (drop lp sol) in
        if path \<noteq> [] then
          (case mergePath e path w of
             Inl err \<Rightarrow> Inl err
           | Inr (merged, w') \<Rightarrow>
               ambSeqsLoop e solutions lp ls rest (amb_seqs @ [merged])
                 (coverage + calculatePathCoverage e path) w')
        else
          (case getSequence e (hd solutions ! (lp - 1)) of
             Inl err \<Rightarrow> Inl err
           | Inr s \<Rightarrow>
               if length s + 1 < opt_k e then Inl (OutOfRange ''s.substr'')
               else ambSeqsLoop e solutions lp ls rest
                      (amb_seqs @ [drop (length s + 1 - opt_k e) s]) coverage w))"

text \<open>\<^verbatim>\<open>*min_element\<close> and \<^verbatim>\<open>*max_element\<close> of a vector that is not empty.\<close>

definition min_element :: "nat list \<Rightarrow> nat" where
  "min_element xs = fold min (tl xs) (hd xs)"

definition max_element :: "nat list \<Rightarrow> nat" where
  "max_element xs = fold max (tl xs) (hd xs)"

text \<open>The assertions of the perfect-match branch (they are compiled in unless \<^verbatim>\<open>NDEBUG\<close> is set).\<close>

definition palindromes_check :: "env \<Rightarrow> ContigPaths \<Rightarrow> nat \<Rightarrow> nat \<Rightarrow> error + unit" where
  "palindromes_check e solutions lp ls =
     (let sol0 = hd solutions;
          palindrome0 = node_id (sol0 ! lp);
          palindrome1 = node_id (sol0 ! (length sol0 - 1 - ls))
      in
      case getSequence e (Contig palindrome0 False) of
        Inl err \<Rightarrow> Inl err
      | Inr s0 \<Rightarrow>
      (case getSequence e (Contig palindrome1 False) of
        Inl err \<Rightarrow> Inl err
      | Inr s1 \<Rightarrow>
          if s0 \<noteq> reverseComplement e s0
          then Inl (AssertionFailed ''s0 == reverseComplement(s0)'')
          else if s1 \<noteq> reverseComplement e s1
          then Inl (AssertionFailed ''s1 == reverseComplement(s1)'')
          else if \<not> list_all (\<lambda>path. node_id (path ! lp) = palindrome0
                                     \<and> node_id (path ! (length path - 1 - ls)) = palindrome1
                                     \<and> length path = length sol0) solutions
          then Inl (AssertionFailed ''palindrome'')
          else Inr ()))"

text \<open>
  \<^verbatim>\<open>alignMulti\<close>. Its only caller is \<^verbatim>\<open>align\<close>, which passes more than two
  solutions, so that \<^verbatim>\<open>solutions.front()\<close> exists.
\<close>

definition alignMulti :: "env \<Rightarrow> ContigPaths \<Rightarrow> world \<Rightarrow> error + (ContigPath \<times> world)" where
  "alignMulti e solutions w =
     (let firstSol = hd solutions;
          min_len = fold (\<lambda>sol m. min m (length sol)) (tl solutions) (length firstSol);
          longestPrefix = longestPrefixLoop solutions min_len 0;
          vppath = take longestPrefix firstSol;
          longestSuffix = longestSuffixLoop solutions (min_len - longestPrefix) 0;
          vspath = drop (length firstSol - longestSuffix) firstSol
      in
      if \<not> (longestPrefix > 0 \<and> longestSuffix > 0)
      then Inl (AssertionFailed ''longestPrefix > 0 && longestSuffix > 0'')
      else
        (case ambSeqsLoop e solutions longestPrefix longestSuffix solutions [] 0 w of
           Inl err \<Rightarrow> Inl err
         | Inr (amb_seqs, coverage, w1) \<Rightarrow>
             let lengths = map length amb_seqs;
                 minLength = min_element lengths;
                 maxLength = max_element lengths
             in
             if ratio_below e minLength maxLength then Inr ([], w1)
             else
               (case dialign e amb_seqs of
                  (consensus, matches) \<Rightarrow>
                    let w2 = w1\<lparr>events := events w1 @ [DialignCall amb_seqs]\<rparr> in
                    if ratio_below e matches (length consensus) then Inr ([], w2)
                    else if float_quotient matches (length consensus) = Some 1 then
                      (case palindromes_check e solutions longestPrefix longestSuffix of
                         Inl err \<Rightarrow> Inl err
                       | Inr u \<Rightarrow> Inr (solutions ! 0, w2))
                    else
                      (case outputNewContig solutions longestPrefix longestSuffix
                              consensus coverage w2 of
                         Inl err \<Rightarrow> Inl err
                       | Inr (new_id, w3) \<Rightarrow>
                           Inr (vppath @ [Contig new_id False] @ vspath, w3)))))"

definition align :: "env \<Rightarrow> ContigPaths \<Rightarrow> world \<Rightarrow> error + (ContigPath \<times> world)" where
  "align e sequences w =
     (if \<not> length sequences > 1 then Inl (AssertionFailed ''sequences.size() > 1'')
      else if length sequences = 2 then alignPair e sequences w
      else alignMulti e sequences w)"

section \<open>Candidate evaluator\<close>

text \<open>\<^verbatim>\<open>markSeen\<close> for one path and for a list of paths.\<close>

fun markSeen :: "bool list \<Rightarrow> ContigPath \<Rightarrow> bool \<Rightarrow> bool list" where
  "markSeen seen [] flag = seen"
| "markSeen seen (n # rest) flag =
     markSeen (if \<not> ambiguous n \<and> node_id n < length seen
               then seen[node_id n := flag] else seen) rest flag"

fun markSeenPaths :: "bool list \<Rightarrow> ContigPaths \<Rightarrow> bool \<Rightarrow> bool list" where
  "markSeenPaths seen [] flag = seen"
| "markSeenPaths seen (p # rest) flag = markSeenPaths (markSeen seen p flag) rest flag"

definition fillGap ::
  "env \<Rightarrow> AmbPathConstraint \<Rightarrow> bool list \<Rightarrow> world \<Rightarrow> error + (ContigPath \<times> bool list \<times> world)" where
  "fillGap e apConstraint seen w =
     (let constraints = [(dest apConstraint, dist apConstraint + int (opt_distanceError e))];
          found = constrainedSearch e (source apConstraint) constraints;
          w0 = w\<lparr>events := events w @ [SearchCall (source apConstraint) constraints]\<rparr>;
          numVisited = snd found;
          tooComplex_flag = (numVisited \<ge> opt_maxCost e);
          solutions = map (\<lambda>sol. source apConstraint # sol) (fst found);
          tooManySolutions = (length solutions > opt_numBranches e);
          st = stats w0
      in
      if tooComplex_flag then
        Inr ([], seen, w0\<lparr>stats := st\<lparr>tooComplex := tooComplex st + 1\<rparr>\<rparr>)
      else if tooManySolutions then
        Inr ([], seen, w0\<lparr>stats := st\<lparr>numTooManySolutions := numTooManySolutions st + 1\<rparr>\<rparr>)
      else if solutions = [] then
        Inr ([], seen, w0\<lparr>stats := st\<lparr>numNoSolutions := numNoSolutions st + 1\<rparr>\<rparr>)
      else if length solutions = 1 then
        Inr ([], seen, w0\<lparr>stats := st\<lparr>numMerged := numMerged st + 1\<rparr>\<rparr>)
      else
        (case align e solutions w0 of
           Inl err \<Rightarrow> Inl err
         | Inr (consensus, w1) \<Rightarrow>
             if consensus \<noteq> [] then
               Inr (consensus, markSeenPaths seen solutions True,
                    w1\<lparr>stats := (stats w1)\<lparr>numMerged := numMerged (stats w1) + 1\<rparr>\<rparr>)
             else
               Inr (consensus, seen,
                    w1\<lparr>stats := (stats w1)\<lparr>notMerged := notMerged (stats w1) + 1\<rparr>\<rparr>)))"

section \<open>Gap registry and path loader\<close>

text \<open>
  The registry \<^verbatim>\<open>g_ambpath_contig\<close> is a \<^verbatim>\<open>std::map\<close>: its entries are kept in
  the order of the keys, and \<^verbatim>\<open>insert\<close> leaves the map as it is when it already
  holds an equivalent key (one that is neither less nor greater).
\<close>

type_synonym AmbPath2Contig = "(AmbPathConstraint \<times> ContigPath) list"

fun map_insert :: "AmbPathConstraint \<Rightarrow> ContigPath \<Rightarrow> AmbPath2Contig \<Rightarrow> AmbPath2Contig" where
  "map_insert key v [] = [(key, v)]"
| "map_insert key v ((key', v') # rest) =
     (if constraint_lt key key' then (key, v) # (key', v') # rest
      else if constraint_lt key' key then (key', v') # map_insert key v rest
      else (key', v') # rest)"

fun map_find :: "AmbPath2Contig \<Rightarrow> AmbPathConstraint \<Rightarrow> ContigPath option" where
  "map_find [] key = None"
| "map_find ((key', v') # rest) key =
     (if \<not> constraint_lt key key' \<and> \<not> constraint_lt key' key then Some v'
      else map_find rest key)"

text \<open>
  The inner loop of \<^verbatim>\<open>readPath\<close> over one path of more than two nodes: it visits
  every node that has a previous and a next node.
\<close>

fun scanPath :: "ContigPath \<Rightarrow> AmbPath2Contig \<Rightarrow> bool \<Rightarrow> AmbPath2Contig \<times> bool" where
  "scanPath (prev # n # next # rest) reg cur_is_amb =
     (if ambiguous n
      then scanPath (n # next # rest)
             (map_insert \<lparr>source = prev, dest = next, dist = - int (node_id n)\<rparr> [] reg) True
      else scanPath (n # next # rest) reg cur_is_amb)"
| "scanPath path reg cur_is_amb = (reg, cur_is_amb)"

text \<open>
  \<^verbatim>\<open>readPath\<close> on the records that the stream holds (parsing a record is the work of
  \<^verbatim>\<open>ContigPath\<close>): the registry and the flags after the records read so far.
\<close>

fun readPathLoop ::
  "(string \<times> ContigPath) list \<Rightarrow> AmbPath2Contig \<Rightarrow> bool list \<Rightarrow> AmbPath2Contig \<times> bool list" where
  "readPathLoop [] reg isAmb = (reg, isAmb)"
| "readPathLoop ((pid, path) # rest) reg isAmb =
     (if length path \<le> 2 then readPathLoop rest reg (isAmb @ [False])
      else
        case scanPath path reg False of
          (reg', cur_is_amb) \<Rightarrow> readPathLoop rest reg' (isAmb @ [cur_is_amb]))"

definition readPath ::
  "(string \<times> ContigPath) list \<Rightarrow> ContigPaths \<times> string list \<times> bool list \<times> AmbPath2Contig" where
  "readPath records =
     (case readPathLoop records [] [] of
        (reg, isAmb) \<Rightarrow> (map snd records, map fst records, isAmb, reg))"

section \<open>The run\<close>

text \<open>The resolution loop of \<^verbatim>\<open>main\<close> over the registry, in the order of the keys.\<close>

fun resolveAll ::
  "env \<Rightarrow> AmbPath2Contig \<Rightarrow> bool list \<Rightarrow> world \<Rightarrow> error + (AmbPath2Contig \<times> bool list \<times> world)" where
  "resolveAll e [] seen w = Inr ([], seen, w)"
| "resolveAll e ((key, v) # rest) seen w =
     (case fillGap e key seen w of
        Inl err \<Rightarrow> Inl err
      | Inr (consensus, seen', w') \<Rightarrow>
          (case resolveAll e rest seen' w' of
             Inl err \<Rightarrow> Inl err
           | Inr (rest', seen'', w'') \<Rightarrow> Inr ((key, consensus) # rest', seen'', w'')))"

text \<open>
  The rewriting of one path with a gap: \<open>prev\<close> and \<open>n\<close> walk the input path, and
  \<open>cur_path\<close> grows.
\<close>

fun rewriteLoop ::
  "AmbPath2Contig \<Rightarrow> ContigNode \<Rightarrow> ContigPath \<Rightarrow> ContigPath \<Rightarrow> error + ContigPath" where
  "rewriteLoop reg prev [] cur_path = Inr cur_path"
| "rewriteLoop reg prev (n # rest) cur_path =
     (if \<not> ambiguous n then rewriteLoop reg n rest (cur_path @ [n])
      else
        (case rest of
           [] \<Rightarrow> Inl (AssertionFailed ''next != path->end()'')
         | next # rest' \<Rightarrow>
             (case map_find reg \<lparr>source = prev, dest = next, dist = - int (node_id n)\<rparr> of
                None \<Rightarrow> Inl (AssertionFailed ''ambIt != g_ambpath_contig.end()'')
              | Some solution \<Rightarrow>
                  if solution \<noteq> [] then
                    (if \<not> length solution > 1 then Inl (AssertionFailed ''solution.size() > 1'')
                     else rewriteLoop reg n rest (cur_path @ butlast (tl solution)))
                  else rewriteLoop reg n rest (cur_path @ [n]))))"

text \<open>A line of the output file: a contig on its own, or a path with its label.\<close>

datatype out_line = ContigLine nat | PathLine string ContigPath

fun rewritePaths ::
  "AmbPath2Contig \<Rightarrow> (string \<times> ContigPath \<times> bool) list \<Rightarrow> error + out_line list" where
  "rewritePaths reg [] = Inr []"
| "rewritePaths reg ((pid, path, isAmb) # rest) =
     (case (if \<not> isAmb then Inr path
            else if \<not> length path > 2 then Inl (AssertionFailed ''path->size() > 2'')
            else rewriteLoop reg (hd path) (tl path) [hd path]) of
        Inl err \<Rightarrow> Inl err
      | Inr cur_path \<Rightarrow>
          (case rewritePaths reg rest of
             Inl err \<Rightarrow> Inl err
           | Inr ls \<Rightarrow> Inr (PathLine pid cur_path # ls)))"

text \<open>
  What a run leaves behind: the lines of the output file, the consensus FASTA file, the
  counters of the summary, the vertices for the graph, and the events.
\<close>

record run_result =
  out_lines :: "out_line list"
  out_fasta :: "FastaRecord list"
  out_stats :: Stats
  out_newVertices :: "NewVertex list"
  out_events :: "event list"
  out_registry :: AmbPath2Contig

text \<open>
  \<^verbatim>\<open>main\<close> after the options and the input files are read: \<open>records\<close> are the
  records of the path file and \<open>first_id\<close> is the identifier that the allocator hands
  out first. The counters start at zero, as static storage does.
\<close>

definition main_run :: "env \<Rightarrow> (string \<times> ContigPath) list \<Rightarrow> nat \<Rightarrow> error + run_result" where
  "main_run e records first_id =
     (if opt_k e \<le> 0 then Inl (UsageError ''missing -k,--kmer option'')
      else if g_contigs e = [] then Inl (AssertionFailed ''!contigs.empty()'')
      else
        case readPath records of
          (paths, pathIDs, isAmbPath, reg) \<Rightarrow>
            let st0 = \<lparr>numAmbPaths = length reg, numMerged = 0, numNoSolutions = 0,
                       numTooManySolutions = 0, tooComplex = 0, notMerged = 0\<rparr>;
                w0 = \<lparr>stats = st0, g_newVertices = [], fasta = [],
                      nextContigID = first_id, events = []\<rparr>;
                seen0 = replicate (length (g_contigs e)) False
            in
            (case resolveAll e reg seen0 w0 of
               Inl err \<Rightarrow> Inl err
             | Inr (reg', seen1, w1) \<Rightarrow>
                 let seen2 = markSeenPaths seen1 (map snd reg') False;
                     seen3 = markSeenPaths seen2 paths False;
                     contig_lines = map ContigLine
                                      (filter (\<lambda>i. seen3 ! i) [0 ..< length (g_contigs e)])
                 in
                 (case rewritePaths reg' (zip pathIDs (zip paths isAmbPath)) of
                    Inl err \<Rightarrow> Inl err
                  | Inr path_lines \<Rightarrow>
                      Inr \<lparr>out_lines = contig_lines @ path_lines,
                           out_fasta = fasta w1,
                           out_stats = stats w1,
                           out_newVertices = g_newVertices w1,
                           out_events = events w1,
                           out_registry = reg'\<rparr>)))"

section \<open>Observations on a run\<close>

text \<open>The events that are calls of the constrained search, and of an alignment procedure.\<close>

fun is_search_call :: "event \<Rightarrow> bool" where
  "is_search_call (SearchCall src cs) = True"
| "is_search_call ev = False"

fun is_align_call :: "event \<Rightarrow> bool" where
  "is_align_call (AlignGlobalCall a b) = True"
| "is_align_call (DialignCall seqs) = True"
| "is_align_call ev = False"

text \<open>
  Two relations between the state before and after a step: the step has at most reported
  warnings; and the step has left the counters and the calls of the search as they were.
\<close>

definition same_but_warnings :: "world \<Rightarrow> world \<Rightarrow> bool" where
  "same_but_warnings w w' =
     (stats w' = stats w \<and> fasta w' = fasta w \<and> g_newVertices w' = g_newVertices w
      \<and> nextContigID w' = nextContigID w
      \<and> filter is_search_call (events w') = filter is_search_call (events w)
      \<and> filter is_align_call (events w') = filter is_align_call (events w))"

definition same_stats_searches :: "world \<Rightarrow> world \<Rightarrow> bool" where
  "same_stats_searches w w' =
     (stats w' = stats w
      \<and> filter is_search_call (events w') = filter is_search_call (events w))"

text \<open>The call of the constrained search that \<^verbatim>\<open>fillGap\<close> makes for a constraint.\<close>

definition search_call :: "env \<Rightarrow> AmbPathConstraint \<Rightarrow> event" where
  "search_call e c =
     SearchCall (source c) [(dest c, dist c + int (opt_distanceError e))]"

text \<open>
  The candidate paths of a constraint: what the constrained search returns, each with
  the source in front; and the number of vertices the search visited.
\<close>

definition candidates :: "env \<Rightarrow> AmbPathConstraint \<Rightarrow> ContigPaths" where
  "candidates e c =
     map (\<lambda>sol. source c # sol)
       (fst (constrainedSearch e (source c) [(dest c, dist c + int (opt_distanceError e))]))"

definition visited :: "env \<Rightarrow> AmbPathConstraint \<Rightarrow> nat" where
  "visited e c =
     snd (constrainedSearch e (source c) [(dest c, dist c + int (opt_distanceError e))])"

text \<open>
  The gaps of a path: one constraint for every ambiguous node that has a node before it
  and a node after it, in the order of the path.
\<close>

fun interior_gaps :: "ContigPath \<Rightarrow> AmbPathConstraint list" where
  "interior_gaps (prev # n # next # rest) =
     (if ambiguous n then [\<lparr>source = prev, dest = next, dist = - int (node_id n)\<rparr>] else [])
     @ interior_gaps (n # next # rest)"
| "interior_gaps path = []"

text \<open>The registry after inserting a list of constraints, each with the empty path.\<close>

definition insert_all :: "AmbPathConstraint list \<Rightarrow> AmbPath2Contig \<Rightarrow> AmbPath2Contig" where
  "insert_all ks reg = fold (\<lambda>k r. map_insert k [] r) ks reg"

text \<open>The real contigs that a path goes through, by identifier.\<close>

definition contig_ids :: "ContigPath \<Rightarrow> nat set" where
  "contig_ids path = {node_id n | n. n \<in> set path \<and> \<not> ambiguous n}"

text \<open>The contigs that the output file lists on a line of their own, in order.\<close>

fun contig_lines :: "out_line list \<Rightarrow> nat list" where
  "contig_lines [] = []"
| "contig_lines (ContigLine i # rest) = i # contig_lines rest"
| "contig_lines (PathLine pid path # rest) = contig_lines rest"

text \<open>The sum of the five outcome counters of the summary.\<close>

definition outcome_total :: "Stats \<Rightarrow> nat" where
  "outcome_total st =
     numMerged st + numNoSolutions st + numTooManySolutions st + tooComplex st + notMerged st"

section \<open>A small instance\<close>

text \<open>
  An instance for the examples below: \<open>k = 3\<close>, the default identity threshold (the
  float \<^verbatim>\<open>0.9\<close> is 7549747 / 8388608), a search budget of 100, seven contigs
  of which two have the same sequence, every edge an overlap of two bases, and simple
  stand-ins for the collaborators. The constrained search is a parameter;
  \<open>example_search\<close> finds two candidates of merged lengths 10 and 4 from contig 0, none
  from contig 2, three candidates from contig 3, two candidates of equal merged length
  from contig 4, one candidate from contig 5, and gives up on its budget elsewhere.
\<close>

definition example_world :: world where
  "example_world =
     \<lparr>stats = \<lparr>numAmbPaths = 0, numMerged = 0, numNoSolutions = 0,
               numTooManySolutions = 0, tooComplex = 0, notMerged = 0\<rparr>,
      g_newVertices = [], fasta = [], nextContigID = 100, events = []\<rparr>"

fun example_complement_base :: "char \<Rightarrow> char" where
  "example_complement_base c =
     (if c = CHR ''A'' then CHR ''T'' else if c = CHR ''T'' then CHR ''A''
      else if c = CHR ''C'' then CHR ''G'' else if c = CHR ''G'' then CHR ''C'' else c)"

definition example_env ::
  "(ContigNode \<Rightarrow> (ContigNode \<times> int) list \<Rightarrow> ContigPaths \<times> nat) \<Rightarrow> env" where
  "example_env search =
     \<lparr>opt_k = 3, opt_identity = 7549747 / 8388608, opt_numBranches = 4, opt_distanceError = 6,
      opt_maxCost = 100,
      g_contigs = [''ACGTT'', ''TTACGTACGG'', ''GGCAT'', ''TTGG'', ''TTACGTACGG'', ''TTCG'',
                   ''TTACGTTCGG''],
      edgeDistance = (\<lambda>u v. Some (- 2)),
      pathCoverage = (\<lambda>path. length path),
      constrainedSearch = search,
      alignGlobal = (\<lambda>a b. (min (length a) (length b), max (length a) (length b), a)),
      dialign = (\<lambda>seqs. (hd seqs, length (hd seqs) - 1)),
      reverseComplement = (\<lambda>s. rev (map example_complement_base s)),
      ambiguousSequence = (\<lambda>n. replicate (node_id n) CHR ''N'')\<rparr>"

definition example_search :: "ContigNode \<Rightarrow> (ContigNode \<times> int) list \<Rightarrow> ContigPaths \<times> nat" where
  "example_search src cs =
     (if src = Contig 0 False
      then ([[Contig 1 False, Contig 2 False], [Contig 3 False, Contig 2 False]], 4)
      else if src = Contig 2 False then ([], 1)
      else if src = Contig 3 False
      then ([[Contig 1 False, Contig 2 False], [Contig 5 False, Contig 2 False],
             [Contig 6 False, Contig 2 False]], 9)
      else if src = Contig 4 False
      then ([[Contig 1 False, Contig 2 False], [Contig 6 False, Contig 2 False]], 7)
      else if src = Contig 5 False then ([[Contig 1 False, Contig 2 False]], 3)
      else (replicate 5 [Contig 1 False, Contig 2 False], 100))"

definition example_records :: "(string \<times> ContigPath) list" where
  "example_records =
     [(''7'', [Contig 0 False, Ambiguous 5, Contig 2 False, Ambiguous 3, Contig 5 False]),
      (''8'', [Contig 4 False, Ambiguous 8, Contig 2 False]),
      (''9'', [Contig 0 False, Ambiguous 5, Contig 2 False]),
      (''10'', [Contig 5 False, Ambiguous 2, Contig 2 False]),
      (''11'', [Contig 6 True, Ambiguous 4, Contig 2 False]),
      (''12'', [Contig 0 False, Contig 3 False])]"

text \<open>
  The registry and the result of the run on \<open>example_records\<close> with the first fresh
  identifier 100: only the gap after contig 4 is resolved, by a new contig.
\<close>

definition example_registry :: AmbPath2Contig where
  "example_registry =
          [(\<lparr>source = Contig 0 False, dest = Contig 2 False, dist = - 5\<rparr>, []),
           (\<lparr>source = Contig 2 False, dest = Contig 5 False, dist = - 3\<rparr>, []),
           (\<lparr>source = Contig 4 False, dest = Contig 2 False, dist = - 8\<rparr>,
            [Contig 4 False, Contig 100 False, Contig 2 False]),
           (\<lparr>source = Contig 5 False, dest = Contig 2 False, dist = - 2\<rparr>, []),
           (\<lparr>source = Contig 6 True, dest = Contig 2 False, dist = - 4\<rparr>, [])]"

definition example_result :: run_result where
  "example_result =
    \<lparr>out_lines =
        [ContigLine 1,
         PathLine ''7''
          [Contig 0 False, Ambiguous 5, Contig 2 False, Ambiguous 3, Contig 5 False],
         PathLine ''8'' [Contig 4 False, Contig 100 False, Contig 2 False],
         PathLine ''9'' [Contig 0 False, Ambiguous 5, Contig 2 False],
         PathLine ''10'' [Contig 5 False, Ambiguous 2, Contig 2 False],
         PathLine ''11'' [Contig 6 True, Ambiguous 4, Contig 2 False],
         PathLine ''12'' [Contig 0 False, Contig 3 False]],
     out_fasta =
          [\<lparr>fa_id = 100, fa_length = 10, fa_coverage = 2,
              fa_paths = [Some [Contig 1 False], Some [Contig 6 False]],
              fa_seq = ''TTACGTACGG''\<rparr>],
     out_stats =
          \<lparr>numAmbPaths = 5, numMerged = 2, numNoSolutions = 1,
             numTooManySolutions = 0, tooComplex = 1, notMerged = 1\<rparr>,
     out_newVertices =
          [\<lparr>nv_t = Contig 4 False, nv_u = Contig 100 False,
              nv_v = Contig 2 False, nv_vp = (10, 2)\<rparr>],
     out_events =
          [SearchCall (Contig 0 False) [(Contig 2 False, 1)],
           SearchCall (Contig 2 False) [(Contig 5 False, 3)],
           SearchCall (Contig 4 False) [(Contig 2 False, - 2)],
           AlignGlobalCall ''TTACGTACGG'' ''TTACGTTCGG'',
           SearchCall (Contig 5 False) [(Contig 2 False, 4)],
           SearchCall (Contig 6 True) [(Contig 2 False, 2)]],
     out_registry = example_registry\<rparr>"

text \<open>
  The instance with two long contigs in the place of contigs 1 and 3, of 1710008 and of
  1900009 bases: the two candidates from contig 0 then have these merged lengths.
\<close>

definition example_long_env :: env where
  "example_long_env =
     (example_env example_search)
       \<lparr>g_contigs := [''ACGTT'', replicate 1710008 CHR ''A'', ''GGCAT'',
                      replicate 1900009 CHR ''A'']\<rparr>"

declare mergeLoop.simps [simp del]
declare bit_length.simps [simp del]
declare longestPrefixLoop.simps [simp del]
declare longestSuffixLoop.simps [simp del]

section \<open>What each step leaves unchanged\<close>

lemma same_but_warnings_refl: "same_but_warnings w w"
  by (simp add: same_but_warnings_def)

lemma same_but_warnings_trans:
  "same_but_warnings w w' \<Longrightarrow> same_but_warnings w' w'' \<Longrightarrow> same_but_warnings w w''"
  by (simp add: same_but_warnings_def)

lemma mergeContigs_frame:
  "mergeContigs overlap seq s n p w = Inr (r, w') \<Longrightarrow> same_but_warnings w w'"
  by (auto simp: mergeContigs_def same_but_warnings_def split: if_splits sum.splits prod.splits)

lemma mergePathLoop_frame:
  "mergePathLoop e path prev ns seq w = Inr (r, w') \<Longrightarrow> same_but_warnings w w'"
proof (induction ns arbitrary: prev seq w)
  case Nil
  then show ?case by (simp add: same_but_warnings_refl)
next
  case (Cons n ns)
  show ?case
  proof (cases "seq = []")
    case True
    then show ?thesis using Cons.prems Cons.IH
      by (auto split: sum.splits)
  next
    case False
    then obtain p d s seq' w1 where
      "mergeContigs (nat (- d)) seq s n path w = Inr (seq', w1)"
      "mergePathLoop e path (Some n) ns seq' w1 = Inr (r, w')"
      using Cons.prems by (auto split: option.splits if_splits sum.splits prod.splits)
    then show ?thesis
      using mergeContigs_frame Cons.IH same_but_warnings_trans by blast
  qed
qed

lemma mergePath_frame:
  "mergePath e path w = Inr (r, w') \<Longrightarrow> same_but_warnings w w'"
  unfolding mergePath_def by (rule mergePathLoop_frame)

lemma ambSeqsLoop_frame:
  "ambSeqsLoop e solutions lp ls sols amb cov w = Inr (amb', cov', w') \<Longrightarrow> same_but_warnings w w'"
proof (induction sols arbitrary: amb cov w)
  case Nil
  then show ?case by (simp add: same_but_warnings_refl)
next
  case (Cons sol sols)
  show ?case
  proof (cases "take (length sol - ls - lp) (drop lp sol) = []")
    case True
    then show ?thesis using Cons.prems Cons.IH
      by (auto simp: Let_def split: if_splits sum.splits)
  next
    case False
    then obtain merged w1 where
      "mergePath e (take (length sol - ls - lp) (drop lp sol)) w = Inr (merged, w1)"
      "ambSeqsLoop e solutions lp ls sols (amb @ [merged])
          (cov + calculatePathCoverage e (take (length sol - ls - lp) (drop lp sol))) w1
        = Inr (amb', cov', w')"
      using Cons.prems by (auto simp: Let_def split: if_splits sum.splits prod.splits)
    then show ?thesis
      using mergePath_frame Cons.IH same_but_warnings_trans by blast
  qed
qed

lemma outputNewContig_frame:
  "outputNewContig sols lp ls seq cov w = Inr (i, w') \<Longrightarrow>
   stats w' = stats w \<and> events w' = events w"
  by (auto simp: outputNewContig_def Let_def split: if_splits sum.splits)


lemma sbw_sss: "same_but_warnings w w' \<Longrightarrow> same_stats_searches w w'"
  by (simp add: same_but_warnings_def same_stats_searches_def)

lemma sss_trans:
  "same_stats_searches w w' \<Longrightarrow> same_stats_searches w' w'' \<Longrightarrow> same_stats_searches w w''"
  by (simp add: same_stats_searches_def)

lemma outputNewContig_sss:
  "outputNewContig sols lp ls seq cov w = Inr (i, w') \<Longrightarrow> same_stats_searches w w'"
  using outputNewContig_frame by (simp add: same_stats_searches_def)

lemma sss_event:
  "\<not> is_search_call ev \<Longrightarrow> same_stats_searches w (w\<lparr>events := events w @ [ev]\<rparr>)"
  by (simp add: same_stats_searches_def)


lemma mergePath_sss: "mergePath e path w = Inr (r, w') \<Longrightarrow> same_stats_searches w w'"
  using mergePath_frame sbw_sss by blast

lemma ambSeqsLoop_sss:
  "ambSeqsLoop e solutions lp ls sols amb cov w = Inr (amb', cov', w') \<Longrightarrow> same_stats_searches w w'"
  using ambSeqsLoop_frame sbw_sss by blast

lemma alignPair_frame:
  "alignPair e solutions w = Inr (r, w') \<Longrightarrow> same_stats_searches w w'"
  unfolding alignPair_def
  by (auto simp: Let_def same_stats_searches_def
           split: if_splits sum.splits prod.splits
           dest!: mergePath_sss outputNewContig_frame)

lemma alignMulti_frame:
  "alignMulti e solutions w = Inr (r, w') \<Longrightarrow> same_stats_searches w w'"
  unfolding alignMulti_def
  by (auto simp: Let_def same_stats_searches_def
           split: if_splits sum.splits prod.splits
           dest!: ambSeqsLoop_sss outputNewContig_frame)

lemma align_frame:
  "align e solutions w = Inr (r, w') \<Longrightarrow> same_stats_searches w w'"
  unfolding align_def using alignPair_frame alignMulti_frame
  by (auto split: if_splits)

section \<open>Properties of the overlap consensus\<close>

lemma of_char_toupper:
  "islower z \<Longrightarrow> (of_char (toupper z) :: nat) = of_char z - 32"
proof -
  assume l: "islower z"
  have "(of_char z :: nat) - 32 < 256" using nat_of_char_less_256 [of z] by arith
  then show ?thesis using l by (simp add: toupper_def)
qed

lemma toupper_id: "\<not> islower c \<Longrightarrow> toupper c = c"
  by (simp add: toupper_def)

lemma tolower_id: "islower c \<Longrightarrow> tolower c = c"
  by (simp add: tolower_def isupper_def islower_def)

lemma toupper_not_x: "toupper z \<noteq> CHR ''x''"
proof (cases "islower z")
  case True
  have "(of_char z :: nat) - 32 \<noteq> 120" using True unfolding islower_def by arith
  then have "(of_char (toupper z) :: nat) \<noteq> of_char CHR ''x''"
    using of_char_toupper [OF True] by simp
  then show ?thesis by auto
next
  case False
  then have "z \<noteq> CHR ''x''" unfolding islower_def by auto
  then show ?thesis using False by (simp add: toupper_id)
qed

lemma tolower_toupper: "tolower (toupper c) = tolower c"
proof (cases "islower c")
  case True
  have u: "(of_char (toupper c) :: nat) = of_char c - 32" by (rule of_char_toupper [OF True])
  with True have up: "isupper (toupper c)" unfolding isupper_def islower_def by arith
  have "(of_char c :: nat) - 32 + 32 = of_char c" using True unfolding islower_def by arith
  then have "tolower (toupper c) = char_of (of_char c :: nat)"
    using up u by (simp add: tolower_def)
  then show ?thesis using True by (simp add: tolower_id)
next
  case False
  then show ?thesis by (simp add: toupper_id)
qed


lemma consensusLoop_step:
  "consensusLoop ((x, y) # rest) s =
     (if toupper x = toupper y \<or> toupper x = CHR ''N'' \<or> toupper y = CHR ''N''
      then consensusLoop rest
             (s @ [let c = (if toupper x = toupper y \<or> toupper y = CHR ''N'' then x else y)
                   in if islower x \<or> islower y then tolower c else c])
      else [])"
proof -
  define ca where "ca = toupper x"
  define cb where "cb = toupper y"
  define c where "c = (if ca = cb then ca else if ca = CHR ''N'' then cb
                       else if cb = CHR ''N'' then ca else CHR ''x'')"
  define sel where "sel = (if ca = cb \<or> cb = CHR ''N'' then x else y)"
  define r where "r = (if islower x \<or> islower y then tolower sel else sel)"
  have unfold: "consensusLoop ((x, y) # rest) s =
      (if c = CHR ''x'' then []
       else consensusLoop rest (s @ [if islower x \<or> islower y then tolower c else c]))"
    by (simp add: Let_def c_def ca_def cb_def)
  have nx: "ca \<noteq> CHR ''x''" "cb \<noteq> CHR ''x''"
    by (simp_all add: ca_def cb_def toupper_not_x)
  show ?thesis
  proof (cases "ca = cb \<or> ca = CHR ''N'' \<or> cb = CHR ''N''")
    case True
    then have csel: "c = toupper sel"
      by (auto simp: c_def sel_def ca_def cb_def)
    then have cx: "c \<noteq> CHR ''x''" by (simp add: toupper_not_x)
    have "(if islower x \<or> islower y then tolower c else c) = r"
    proof (cases "islower x \<or> islower y")
      case True
      then show ?thesis by (simp add: r_def csel tolower_toupper)
    next
      case False
      then have "\<not> islower sel" by (simp add: sel_def)
      then show ?thesis using False by (simp add: r_def csel toupper_id)
    qed
    then show ?thesis using True cx unfold
      by (simp add: r_def sel_def ca_def cb_def Let_def)
  next
    case False
    then have "c = CHR ''x''" by (simp add: c_def)
    then show ?thesis using False unfold by (simp add: ca_def cb_def)
  qed
qed

lemma consensusLoop_eq:
  "consensusLoop ps s =
     (if \<forall>(x, y) \<in> set ps. toupper x = toupper y \<or> toupper x = CHR ''N'' \<or> toupper y = CHR ''N''
      then s @ map (\<lambda>(x, y). let c = (if toupper x = toupper y \<or> toupper y = CHR ''N'' then x else y)
                              in if islower x \<or> islower y then tolower c else c) ps
      else [])"
proof (induction ps arbitrary: s)
  case Nil
  then show ?case by simp
next
  case (Cons p ps)
  obtain x y where p: "p = (x, y)" by (cases p)
  show ?case unfolding p consensusLoop_step by (simp add: Cons.IH)
qed

lemma zip_same_map:
  "map (\<lambda>(x, y). let c = (if toupper x = toupper y \<or> toupper y = CHR ''N'' then x else y)
                              in if islower x \<or> islower y then tolower c else c) (zip a a) = a"
  by (induction a) (auto simp: tolower_id)

lemma zip_same_compat:
  "\<forall>(x, y) \<in> set (zip a a). toupper x = toupper y \<or> toupper x = CHR ''N'' \<or> toupper y = CHR ''N''"
  by (induction a) auto


lemma islower_tolower: "islower c \<or> isupper c \<Longrightarrow> islower (tolower c)"
proof (cases "isupper c")
  case True
  have "(of_char c :: nat) + 32 < 256" using True unfolding isupper_def by arith
  then have "(of_char (tolower c) :: nat) = of_char c + 32"
    using True by (simp add: tolower_def)
  then show ?thesis using True unfolding islower_def isupper_def by arith
next
  case False
  assume "islower c \<or> isupper c"
  then show ?thesis using False by (simp add: tolower_def)
qed

lemma not_lower_upper: "islower c \<Longrightarrow> \<not> isupper c"
  unfolding islower_def isupper_def by arith

lemma base_case_rule:
  assumes "islower x \<or> isupper x" "islower y \<or> isupper y"
  shows "(islower (let c = (if toupper x = toupper y \<or> toupper y = CHR ''N'' then x else y)
                   in if islower x \<or> islower y then tolower c else c)
          \<longleftrightarrow> islower x \<or> islower y)
       \<and> (isupper (let c = (if toupper x = toupper y \<or> toupper y = CHR ''N'' then x else y)
                   in if islower x \<or> islower y then tolower c else c)
          \<longleftrightarrow> \<not> islower x \<and> \<not> islower y)"
proof -
  define sel where "sel = (if toupper x = toupper y \<or> toupper y = CHR ''N'' then x else y)"
  have letter: "islower sel \<or> isupper sel" using assms by (simp add: sel_def)
  show ?thesis
  proof (cases "islower x \<or> islower y")
    case True
    have "islower (tolower sel)" by (rule islower_tolower [OF letter])
    then show ?thesis using True not_lower_upper [of "tolower sel"]
      by (simp add: Let_def sel_def [symmetric])
  next
    case False
    then have "\<not> islower sel" by (simp add: sel_def)
    then show ?thesis using False letter by (simp add: Let_def sel_def [symmetric])
  qed
qed

text \<open>
  Claim C3, as amended. Bases are compared without regard to case, and the wildcard is
  \<open>N\<close> in either case. For sequences of equal length, \<^verbatim>\<open>createConsensus\<close> fails
  (returns the empty string) as soon as some position holds two bases that differ and
  of which neither is the wildcard; otherwise every position selects the first base
  when the two bases agree or the second is the wildcard, and the second base when the
  first is the wildcard, and the selected base is written in lowercase when one of the
  two bases is lowercase and unchanged otherwise. For letters, the output base is
  lowercase if and only if one of the two bases is lowercase, and uppercase otherwise.
\<close>

theorem createConsensus_per_base:
  assumes "length a = length b"
  shows "createConsensus a b = Inr
     (if \<forall>(x, y) \<in> set (zip a b).
           toupper x = toupper y \<or> toupper x = CHR ''N'' \<or> toupper y = CHR ''N''
      then map (\<lambda>(x, y). let c = (if toupper x = toupper y \<or> toupper y = CHR ''N'' then x else y)
                          in if islower x \<or> islower y then tolower c else c) (zip a b)
      else [])
   \<and> (\<forall>r i. createConsensus a b = Inr r \<and> i < length r
            \<and> (islower (a ! i) \<or> isupper (a ! i)) \<and> (islower (b ! i) \<or> isupper (b ! i))
        \<longrightarrow> (islower (r ! i) \<longleftrightarrow> islower (a ! i) \<or> islower (b ! i))
          \<and> (isupper (r ! i) \<longleftrightarrow> \<not> islower (a ! i) \<and> \<not> islower (b ! i)))"
proof -
  let ?f = "\<lambda>(x, y). let c = (if toupper x = toupper y \<or> toupper y = CHR ''N'' then x else y)
                          in if islower x \<or> islower y then tolower c else c"
  let ?ok = "\<forall>(x, y) \<in> set (zip a b).
           toupper x = toupper y \<or> toupper x = CHR ''N'' \<or> toupper y = CHR ''N''"
  have eq: "createConsensus a b = Inr (if ?ok then map ?f (zip a b) else [])"
  proof (cases "a = b")
    case True
    then show ?thesis using zip_same_compat [of a] zip_same_map [of a]
      by (simp add: createConsensus_def)
  next
    case False
    then show ?thesis using assms
      by (simp add: createConsensus_def consensusLoop_eq)
  qed
  have "(islower (r ! i) \<longleftrightarrow> islower (a ! i) \<or> islower (b ! i))
          \<and> (isupper (r ! i) \<longleftrightarrow> \<not> islower (a ! i) \<and> \<not> islower (b ! i))"
    if h: "createConsensus a b = Inr r" "i < length r"
       "islower (a ! i) \<or> isupper (a ! i)" "islower (b ! i) \<or> isupper (b ! i)" for r i
  proof -
    from h(1) eq have r: "r = (if ?ok then map ?f (zip a b) else [])" by simp
    with h(2) have rm: "r = map ?f (zip a b)" by (auto split: if_splits)
    with h(2) have i: "i < length a" "i < length b" by simp_all
    then have "r ! i = ?f (a ! i, b ! i)" using rm by simp
    then show ?thesis using base_case_rule [OF h(3) h(4)] by simp
  qed
  then show ?thesis using eq by blast
qed

theorem createConsensus_per_base_witness:
  "length ''AcN'' = length ''aCg'' \<and> createConsensus ''AcN'' ''aCg'' = Inr ''acg''
   \<and> islower (''acg'' ! 0) \<and> createConsensus ''AC'' ''AN'' = Inr ''AC'' \<and> isupper (''AC'' ! 1)
   \<and> createConsensus ''AC'' ''AG'' = Inr []"
proof -
  have l: "length ''AcN'' = length ''aCg''" by simp
  have c: "createConsensus ''AcN'' ''aCg'' = Inr ''acg''" by code_simp
  have p1: "islower (''AcN'' ! 0) \<or> isupper (''AcN'' ! 0)" by code_simp
  have p2: "islower (''aCg'' ! 0) \<or> isupper (''aCg'' ! 0)" by code_simp
  have p3: "(0::nat) < length ''acg''" by simp
  have p4: "islower (''AcN'' ! 0) \<or> islower (''aCg'' ! 0)" by code_simp
  have "islower (''acg'' ! 0)"
    using createConsensus_per_base [OF l, THEN conjunct2, rule_format, of "''acg''" 0]
      c p1 p2 p3 p4 by blast
  moreover have "createConsensus ''AC'' ''AN'' = Inr ''AC''" by code_simp
  moreover have "isupper (''AC'' ! 1)" by code_simp
  moreover have "createConsensus ''AC'' ''AG'' = Inr []" by code_simp
  ultimately show ?thesis using c by simp
qed

text \<open>
  Claim C3 as the spec states it fails: the consensus of \<open>A\<close> and \<open>a\<close>, equal without
  regard to case, is \<open>a\<close> and not the first base \<open>A\<close>; and the consensus of \<open>n\<close> and
  \<open>A\<close> is defined although neither base is \<open>N\<close>, and is not the second base.
\<close>

theorem createConsensus_counterexample:
  "toupper CHR ''A'' = toupper CHR ''a'' \<and> createConsensus ''A'' ''a'' = Inr ''a''
   \<and> createConsensus ''A'' ''a'' \<noteq> Inr ''A''
   \<and> CHR ''n'' \<noteq> CHR ''N'' \<and> createConsensus ''n'' ''A'' = Inr ''a''"
  by code_simp

section \<open>Properties of the overlap merge\<close>

lemma createConsensus_total:
  "length a = length b \<Longrightarrow> \<exists>ov. createConsensus a b = Inr ov"
  by (simp add: createConsensus_def)

lemma createConsensus_drop:
  assumes "overlap < length seq" "length bo = overlap"
  shows "\<exists>ov. createConsensus (drop (length seq - overlap) seq) bo = Inr ov"
proof -
  have "length (drop (length seq - overlap) seq) = length bo" using assms by simp
  then show ?thesis by (rule createConsensus_total)
qed

lemma chomp_snoc: "chomp (xs @ [c]) c = (True, xs)"
  by (simp add: chomp_def)

lemma chomp_no: "seq = [] \<or> last seq \<noteq> c \<Longrightarrow> chomp seq c = (False, seq)"
  by (auto simp: chomp_def)

lemma mergeLoop_abort:
  "length seq \<le> overlap \<Longrightarrow> mergeLoop overlap seq bo = Inl (AssertionFailed ''seq.length() > overlap'')"
  by (subst mergeLoop.simps) simp

lemma mergeLoop_success:
  "overlap < length seq \<Longrightarrow> createConsensus (drop (length seq - overlap) seq) bo = Inr ov \<Longrightarrow> ov \<noteq> []
   \<Longrightarrow> mergeLoop overlap seq bo = Inr (seq, drop (length seq - overlap) seq, ov)"
  by (subst mergeLoop.simps) simp

lemma mergeLoop_retry:
  "overlap < length (seq' @ [CHR ''n'']) \<Longrightarrow>
   createConsensus (drop (length (seq' @ [CHR ''n'']) - overlap) (seq' @ [CHR ''n''])) bo = Inr []
   \<Longrightarrow> mergeLoop overlap (seq' @ [CHR ''n'']) bo = mergeLoop overlap seq' bo"
  by (subst mergeLoop.simps) (simp add: chomp_snoc del: length_append)

lemma mergeLoop_stop:
  "overlap < length seq \<Longrightarrow> createConsensus (drop (length seq - overlap) seq) bo = Inr []
   \<Longrightarrow> seq = [] \<or> last seq \<noteq> CHR ''n''
   \<Longrightarrow> mergeLoop overlap seq bo = Inr (seq, drop (length seq - overlap) seq, [])"
  by (subst mergeLoop.simps) (simp add: chomp_no)

lemma mergeLoop_soft:
  assumes "last base \<noteq> CHR ''n''" "overlap < length base"
    and "\<forall>j \<le> t. createConsensus
            (drop (length (base @ replicate j CHR ''n'') - overlap) (base @ replicate j CHR ''n'')) bo = Inr []"
  shows "mergeLoop overlap (base @ replicate t CHR ''n'') bo
         = Inr (base, drop (length base - overlap) base, [])"
  using assms(3)
proof (induction t)
  case 0
  then show ?case using assms(1,2) mergeLoop_stop [of overlap base bo] by simp
next
  case (Suc t)
  have e: "base @ replicate (Suc t) CHR ''n'' = (base @ replicate t CHR ''n'') @ [CHR ''n'']"
    by (simp add: replicate_append_same)
  have c: "createConsensus
            (drop (length (base @ replicate (Suc t) CHR ''n'') - overlap) (base @ replicate (Suc t) CHR ''n'')) bo = Inr []"
    using Suc.prems by blast
  have l: "overlap < length ((base @ replicate t CHR ''n'') @ [CHR ''n''])" using assms(2) by simp
  have "mergeLoop overlap (base @ replicate (Suc t) CHR ''n'') bo
        = mergeLoop overlap (base @ replicate t CHR ''n'') bo"
    unfolding e using mergeLoop_retry [OF l] c [unfolded e] by blast
  moreover have "\<forall>j \<le> t. createConsensus
            (drop (length (base @ replicate j CHR ''n'') - overlap) (base @ replicate j CHR ''n'')) bo = Inr []"
    using Suc.prems by auto
  ultimately show ?case using Suc.IH by simp
qed

lemma mergeLoop_returns:
  assumes "last base \<noteq> CHR ''n''" "overlap < length base" "length bo = overlap"
  shows "\<exists>r. mergeLoop overlap (base @ replicate t CHR ''n'') bo = Inr r"
proof (induction t)
  case 0
  obtain ov where c: "createConsensus (drop (length base - overlap) base) bo = Inr ov"
    using createConsensus_drop [OF assms(2,3)] by blast
  show ?case
  proof (cases "ov = []")
    case True
    then show ?thesis using mergeLoop_stop [of overlap base bo] c assms(1,2) by simp
  next
    case False
    then show ?thesis using mergeLoop_success [of overlap base bo ov] c assms(2) by simp
  qed
next
  case (Suc t)
  let ?seq = "base @ replicate (Suc t) CHR ''n''"
  have e: "?seq = (base @ replicate t CHR ''n'') @ [CHR ''n'']"
    by (simp add: replicate_append_same)
  have l: "overlap < length ?seq" using assms(2) by simp
  obtain ov where c: "createConsensus (drop (length ?seq - overlap) ?seq) bo = Inr ov"
    using createConsensus_drop [OF l assms(3)] by blast
  show ?case
  proof (cases "ov = []")
    case True
    have "mergeLoop overlap ?seq bo = mergeLoop overlap (base @ replicate t CHR ''n'') bo"
      unfolding e using mergeLoop_retry [OF l [unfolded e]] c [unfolded e] True by blast
    then show ?thesis using Suc.IH by simp
  next
    case False
    then show ?thesis using mergeLoop_success [OF l c] by simp
  qed
qed


lemma mergeLoop_aborts:
  assumes "length base \<le> overlap"
    and "\<forall>j \<le> t. overlap < length (base @ replicate j CHR ''n'') \<longrightarrow> createConsensus
            (drop (length (base @ replicate j CHR ''n'') - overlap) (base @ replicate j CHR ''n'')) bo = Inr []"
  shows "mergeLoop overlap (base @ replicate t CHR ''n'') bo
         = Inl (AssertionFailed ''seq.length() > overlap'')"
  using assms(2)
proof (induction t)
  case 0
  then show ?case using assms(1) mergeLoop_abort [of base overlap bo] by simp
next
  case (Suc t)
  let ?seq = "base @ replicate (Suc t) CHR ''n''"
  have e: "?seq = (base @ replicate t CHR ''n'') @ [CHR ''n'']"
    by (simp add: replicate_append_same)
  have ih: "mergeLoop overlap (base @ replicate t CHR ''n'') bo
         = Inl (AssertionFailed ''seq.length() > overlap'')"
    using Suc.IH Suc.prems by auto
  show ?case
  proof (cases "overlap < length ?seq")
    case True
    then have c: "createConsensus (drop (length ?seq - overlap) ?seq) bo = Inr []"
      using Suc.prems by blast
    have "mergeLoop overlap ?seq bo = mergeLoop overlap (base @ replicate t CHR ''n'') bo"
      unfolding e using mergeLoop_retry [OF True [unfolded e]] c [unfolded e] by blast
    then show ?thesis using ih by simp
  next
    case False
    then show ?thesis using mergeLoop_abort [of ?seq overlap bo] by simp
  qed
qed

text \<open>
  Claim C5, as amended. In \<^verbatim>\<open>mergeContigs\<close>, with the next sequence longer than the
  overlap: when the overlap has no consensus and the accumulated sequence ends with the
  filler \<open>n\<close>, exactly one trailing \<open>n\<close> is trimmed and the consensus is tried again;
  when every attempt fails down to a sequence \<open>base\<close> that has no trailing filler and is
  longer than the overlap, the merge fails softly: the result is \<open>base\<close>, one \<open>n\<close> and
  the next sequence, and one warning is reported; the merge returns normally whenever
  the accumulated sequence without its trailing fillers is longer than the overlap; and
  the assertion \<^verbatim>\<open>seq.length() > overlap\<close> ends the run when the attempts fail until
  the trimmed sequence is no longer than the overlap.
\<close>

theorem mergeContigs_soft_failure:
  assumes "overlap < length s"
  shows
   "(overlap < length (seq' @ [CHR ''n''])
      \<and> createConsensus (drop (length (seq' @ [CHR ''n'']) - overlap) (seq' @ [CHR ''n'']))
            (take overlap s) = Inr []
      \<longrightarrow> mergeContigs overlap (seq' @ [CHR ''n'']) s node path w
          = mergeContigs overlap seq' s node path w)
  \<and> (last base \<noteq> CHR ''n'' \<and> overlap < length base
      \<and> (\<forall>j \<le> t. createConsensus
            (drop (length (base @ replicate j CHR ''n'') - overlap) (base @ replicate j CHR ''n''))
            (take overlap s) = Inr [])
      \<longrightarrow> mergeContigs overlap (base @ replicate t CHR ''n'') s node path w
          = Inr (base @ [CHR ''n''] @ s,
                 w\<lparr>events := events w @
                     [MismatchWarning node (drop (length base - overlap) base) (take overlap s) path]\<rparr>))
  \<and> (last base \<noteq> CHR ''n'' \<and> overlap < length base
      \<longrightarrow> (\<exists>r w'. mergeContigs overlap (base @ replicate t CHR ''n'') s node path w = Inr (r, w')))
  \<and> (length base \<le> overlap
      \<and> (\<forall>j \<le> t. overlap < length (base @ replicate j CHR ''n'') \<longrightarrow> createConsensus
            (drop (length (base @ replicate j CHR ''n'') - overlap) (base @ replicate j CHR ''n''))
            (take overlap s) = Inr [])
      \<longrightarrow> mergeContigs overlap (base @ replicate t CHR ''n'') s node path w
          = Inl (AssertionFailed ''seq.length() > overlap''))"
proof (intro conjI impI)
  assume "overlap < length (seq' @ [CHR ''n''])
      \<and> createConsensus (drop (length (seq' @ [CHR ''n'']) - overlap) (seq' @ [CHR ''n'']))
            (take overlap s) = Inr []"
  then have "mergeLoop overlap (seq' @ [CHR ''n'']) (take overlap s)
           = mergeLoop overlap seq' (take overlap s)"
    using mergeLoop_retry by blast
  then show "mergeContigs overlap (seq' @ [CHR ''n'']) s node path w
          = mergeContigs overlap seq' s node path w"
    by (simp add: mergeContigs_def)
next
  assume h: "last base \<noteq> CHR ''n'' \<and> overlap < length base
      \<and> (\<forall>j \<le> t. createConsensus
            (drop (length (base @ replicate j CHR ''n'') - overlap) (base @ replicate j CHR ''n''))
            (take overlap s) = Inr [])"
  then have "mergeLoop overlap (base @ replicate t CHR ''n'') (take overlap s)
         = Inr (base, drop (length base - overlap) base, [])"
    using mergeLoop_soft [of base overlap t "take overlap s"] by blast
  then show "mergeContigs overlap (base @ replicate t CHR ''n'') s node path w
          = Inr (base @ [CHR ''n''] @ s,
                 w\<lparr>events := events w @
                     [MismatchWarning node (drop (length base - overlap) base) (take overlap s) path]\<rparr>)"
    using assms by (simp add: mergeContigs_def)
next
  assume h: "last base \<noteq> CHR ''n'' \<and> overlap < length base"
  have "length (take overlap s) = overlap" using assms by simp
  then obtain r where "mergeLoop overlap (base @ replicate t CHR ''n'') (take overlap s) = Inr r"
    using mergeLoop_returns [of base overlap "take overlap s" t] h by blast
  then show "\<exists>r w'. mergeContigs overlap (base @ replicate t CHR ''n'') s node path w = Inr (r, w')"
    using assms by (cases r) (simp add: mergeContigs_def)
next
  assume h: "length base \<le> overlap
      \<and> (\<forall>j \<le> t. overlap < length (base @ replicate j CHR ''n'') \<longrightarrow> createConsensus
            (drop (length (base @ replicate j CHR ''n'') - overlap) (base @ replicate j CHR ''n''))
            (take overlap s) = Inr [])"
  then have "mergeLoop overlap (base @ replicate t CHR ''n'') (take overlap s)
         = Inl (AssertionFailed ''seq.length() > overlap'')"
    using mergeLoop_aborts [of base overlap t "take overlap s"] by blast
  then show "mergeContigs overlap (base @ replicate t CHR ''n'') s node path w
          = Inl (AssertionFailed ''seq.length() > overlap'')"
    using assms by (simp add: mergeContigs_def)
qed

lemma le_one_cases: "j \<le> (1::nat) \<Longrightarrow> j = 0 \<or> j = 1"
  by arith

theorem mergeContigs_soft_failure_witness:
  "(2::nat) < length ''CGT'' \<and> last ''TTA'' \<noteq> CHR ''n'' \<and> 2 < length ''TTA''
   \<and> mergeContigs 2 ''TTAn'' ''CGT'' (Contig 1 False) [Contig 0 False, Contig 1 False] example_world
     = Inr (''TTAnCGT'',
            example_world\<lparr>events := [MismatchWarning (Contig 1 False) ''TA'' ''CG''
                                       [Contig 0 False, Contig 1 False]]\<rparr>)"
proof -
  have a: "(2::nat) < length ''CGT''" by simp
  have b: "last ''TTA'' \<noteq> CHR ''n''" "2 < length ''TTA''" by simp_all
  have c0: "createConsensus
            (drop (length (''TTA'' @ replicate 0 CHR ''n'') - 2) (''TTA'' @ replicate 0 CHR ''n''))
            (take 2 ''CGT'') = Inr []" by code_simp
  have c1: "createConsensus
            (drop (length (''TTA'' @ replicate 1 CHR ''n'') - 2) (''TTA'' @ replicate 1 CHR ''n''))
            (take 2 ''CGT'') = Inr []" by code_simp
  have c: "\<forall>j \<le> 1. createConsensus
            (drop (length (''TTA'' @ replicate j CHR ''n'') - 2) (''TTA'' @ replicate j CHR ''n''))
            (take 2 ''CGT'') = Inr []"
    using c0 c1 le_one_cases by blast
  have "mergeContigs 2 (''TTA'' @ replicate 1 CHR ''n'') ''CGT'' (Contig 1 False)
          [Contig 0 False, Contig 1 False] example_world
     = Inr (''TTA'' @ [CHR ''n''] @ ''CGT'',
            example_world\<lparr>events := events example_world @
               [MismatchWarning (Contig 1 False) (drop (length ''TTA'' - 2) ''TTA'') (take 2 ''CGT'')
                  [Contig 0 False, Contig 1 False]]\<rparr>)"
    using mergeContigs_soft_failure [OF a, of _ _ _ _ "''TTA''" 1] b c by blast
  then show ?thesis using a b by (simp add: example_world_def)
qed

text \<open>
  Claim C5 as the spec states it fails: with an overlap of two bases, the accumulated
  sequence \<open>TAn\<close> and the next sequence \<open>CGT\<close> conflict, the filler is trimmed, and the
  retry stops the run on the assertion at the head of the loop. \<^verbatim>\<open>mergePath\<close> meets
  this on a path of two contigs with these sequences.
\<close>

theorem mergeContigs_abort_counterexample:
  "mergeContigs 2 ''TAn'' ''CGT'' (Contig 1 False) [Contig 0 False, Contig 1 False] example_world
   = Inl (AssertionFailed ''seq.length() > overlap'')
   \<and> mergePath ((example_env example_search)\<lparr>g_contigs := [''TAn'', ''CGT'']\<rparr>)
        [Contig 0 False, Contig 1 False] example_world
     = Inl (AssertionFailed ''seq.length() > overlap'')"
  by code_simp

section \<open>Properties of the candidate evaluator\<close>

lemma fillGap_unfold:
  "fillGap e c seen w =
     (let w0 = w\<lparr>events := events w @ [search_call e c]\<rparr>; st = stats w in
      if opt_maxCost e \<le> visited e c then
        Inr ([], seen, w0\<lparr>stats := st\<lparr>tooComplex := tooComplex st + 1\<rparr>\<rparr>)
      else if opt_numBranches e < length (candidates e c) then
        Inr ([], seen, w0\<lparr>stats := st\<lparr>numTooManySolutions := numTooManySolutions st + 1\<rparr>\<rparr>)
      else if candidates e c = [] then
        Inr ([], seen, w0\<lparr>stats := st\<lparr>numNoSolutions := numNoSolutions st + 1\<rparr>\<rparr>)
      else if length (candidates e c) = 1 then
        Inr ([], seen, w0\<lparr>stats := st\<lparr>numMerged := numMerged st + 1\<rparr>\<rparr>)
      else
        (case align e (candidates e c) w0 of
           Inl err \<Rightarrow> Inl err
         | Inr (consensus, w1) \<Rightarrow>
             if consensus \<noteq> [] then
               Inr (consensus, markSeenPaths seen (candidates e c) True,
                    w1\<lparr>stats := (stats w1)\<lparr>numMerged := numMerged (stats w1) + 1\<rparr>\<rparr>)
             else
               Inr (consensus, seen,
                    w1\<lparr>stats := (stats w1)\<lparr>notMerged := notMerged (stats w1) + 1\<rparr>\<rparr>)))"
  by (simp add: fillGap_def candidates_def visited_def search_call_def Let_def
           split: sum.splits prod.splits)

text \<open>
  Claim C4. When the count of visited vertices that the constrained search reports has
  reached \<^verbatim>\<open>opt::maxCost\<close>, \<^verbatim>\<open>fillGap\<close> returns normally with the empty resolution
  whatever candidates the search has found, increments the too-complex counter and no
  other, leaves the seen marks as they are, and does nothing but the one call of the
  search: no alignment, no new contig.
\<close>

theorem fillGap_too_complex:
  assumes "opt_maxCost e \<le> visited e c"
  shows "fillGap e c seen w =
           Inr ([], seen,
                w\<lparr>events := events w @ [search_call e c],
                  stats := (stats w)\<lparr>tooComplex := tooComplex (stats w) + 1\<rparr>\<rparr>)"
  using assms by (simp add: fillGap_unfold Let_def)

lemma fillGap_counter:
  assumes "fillGap e c seen w = Inr (r, seen', w')"
  shows "stats w' = (stats w)\<lparr>numMerged := numMerged (stats w) + 1\<rparr>
       \<or> stats w' = (stats w)\<lparr>numNoSolutions := numNoSolutions (stats w) + 1\<rparr>
       \<or> stats w' = (stats w)\<lparr>numTooManySolutions := numTooManySolutions (stats w) + 1\<rparr>
       \<or> stats w' = (stats w)\<lparr>tooComplex := tooComplex (stats w) + 1\<rparr>
       \<or> stats w' = (stats w)\<lparr>notMerged := notMerged (stats w) + 1\<rparr>"
proof (cases "opt_maxCost e \<le> visited e c \<or> opt_numBranches e < length (candidates e c)
              \<or> candidates e c = [] \<or> length (candidates e c) = 1")
  case True
  then show ?thesis using assms
    by (auto simp: fillGap_unfold Let_def split: if_splits)
next
  case False
  let ?w0 = "w\<lparr>events := events w @ [search_call e c]\<rparr>"
  from False assms obtain cons w1 where a: "align e (candidates e c) ?w0 = Inr (cons, w1)"
    and w': "w' = w1\<lparr>stats := (stats w1)\<lparr>numMerged := numMerged (stats w1) + 1\<rparr>\<rparr>
           \<or> w' = w1\<lparr>stats := (stats w1)\<lparr>notMerged := notMerged (stats w1) + 1\<rparr>\<rparr>"
    by (auto simp: fillGap_unfold Let_def split: if_splits sum.splits prod.splits)
  have "stats w1 = stats w" using align_frame [OF a] by (simp add: same_stats_searches_def)
  then show ?thesis using w' by auto
qed

lemma fillGap_total:
  assumes "fillGap e c seen w = Inr (r, seen', w')"
  shows "outcome_total (stats w') = outcome_total (stats w) + 1
       \<and> numAmbPaths (stats w') = numAmbPaths (stats w)"
  using fillGap_counter [OF assms] by (auto simp: outcome_total_def)

lemma resolveAll_total:
  "resolveAll e reg seen w = Inr (reg', seen', w') \<Longrightarrow>
     outcome_total (stats w') = outcome_total (stats w) + length reg
     \<and> numAmbPaths (stats w') = numAmbPaths (stats w)
     \<and> map fst reg' = map fst reg"
proof (induction reg arbitrary: seen w reg' seen' w')
  case Nil
  then show ?case by simp
next
  case (Cons kv reg)
  obtain key v where kv: "kv = (key, v)" by (cases kv)
  from Cons.prems obtain cons s1 w1 rest' where
    f: "fillGap e key seen w = Inr (cons, s1, w1)"
    and r: "resolveAll e reg s1 w1 = Inr (rest', seen', w')"
    and reg': "reg' = (key, cons) # rest'"
    unfolding kv by (auto split: sum.splits prod.splits)
  show ?case using fillGap_total [OF f] Cons.IH [OF r] reg' kv by simp
qed

lemma main_run_unfold:
  assumes "main_run e records first_id = Inr res"
  shows "\<exists>seen1 w1. resolveAll e (snd (snd (snd (readPath records))))
            (replicate (length (g_contigs e)) False)
            \<lparr>stats = \<lparr>numAmbPaths = length (snd (snd (snd (readPath records)))), numMerged = 0,
                      numNoSolutions = 0, numTooManySolutions = 0, tooComplex = 0, notMerged = 0\<rparr>,
             g_newVertices = [], fasta = [], nextContigID = first_id, events = []\<rparr>
          = Inr (out_registry res, seen1, w1)
        \<and> out_stats res = stats w1 \<and> out_events res = events w1"
  using assms unfolding main_run_def
  by (auto simp: Let_def split: if_splits sum.splits prod.splits)

section \<open>The run on the small instance\<close>

lemma example_readPath:
  "readPath example_records =
     (map snd example_records, map fst example_records,
      [True, True, True, True, True, False],
      [(\<lparr>source = Contig 0 False, dest = Contig 2 False, dist = - 5\<rparr>, []),
       (\<lparr>source = Contig 2 False, dest = Contig 5 False, dist = - 3\<rparr>, []),
       (\<lparr>source = Contig 4 False, dest = Contig 2 False, dist = - 8\<rparr>, []),
       (\<lparr>source = Contig 5 False, dest = Contig 2 False, dist = - 2\<rparr>, []),
       (\<lparr>source = Contig 6 True, dest = Contig 2 False, dist = - 4\<rparr>, [])])"
  by (simp add: readPath_def example_records_def constraint_lt_def node_lt_def)

lemmas round_defs = round32_def round_half_even_div_def bit_length.simps Let_def

lemma float_of_nat_4: "float_of_nat 4 = (8388608, - 21)"
  by (simp add: float_of_nat_def round_defs)

lemma float_of_nat_10: "float_of_nat 10 = (10485760, - 20)"
  by (simp add: float_of_nat_def round_defs)

lemma float_div_4_10: "float_div (8388608, - 21) (10485760, - 20) = (13421773, - 25)"
  by (simp add: float_div_def round_defs)

lemma float_div_10_10: "float_div (10485760, - 20) (10485760, - 20) = (8388608, - 23)"
  by (simp add: float_div_def round_defs)

lemma float_quotient_4_10: "float_quotient 4 10 = Some (13421773 / 33554432)"
  by (simp add: float_quotient_def float_of_nat_4 float_of_nat_10 float_div_4_10
        float_value_def pow2_def)

lemma float_quotient_10_10: "float_quotient 10 10 = Some 1"
  by (simp add: float_quotient_def float_of_nat_10 float_div_10_10 float_value_def pow2_def)

text \<open>The same quotients for lengths as \<open>length\<close> computes them on a literal.\<close>

lemma float_quotient_Suc_4_10:
  "float_quotient (Suc (Suc (Suc (Suc 0))))
     (Suc (Suc (Suc (Suc (Suc (Suc (Suc (Suc (Suc (Suc 0))))))))))
   = Some (13421773 / 33554432)"
proof -
  have "float_quotient (Suc (Suc (Suc (Suc 0))))
          (Suc (Suc (Suc (Suc (Suc (Suc (Suc (Suc (Suc (Suc 0))))))))))
        = float_quotient 4 10"
    by (rule arg_cong2 [where f = float_quotient]) simp_all
  then show ?thesis by (simp only: float_quotient_4_10)
qed

lemma float_quotient_Suc_10_10:
  "float_quotient (Suc (Suc (Suc (Suc (Suc (Suc (Suc (Suc (Suc (Suc 0))))))))))
     (Suc (Suc (Suc (Suc (Suc (Suc (Suc (Suc (Suc (Suc 0))))))))))
   = Some 1"
proof -
  have "float_quotient (Suc (Suc (Suc (Suc (Suc (Suc (Suc (Suc (Suc (Suc 0))))))))))
          (Suc (Suc (Suc (Suc (Suc (Suc (Suc (Suc (Suc (Suc 0))))))))))
        = float_quotient 10 10"
    by (rule arg_cong2 [where f = float_quotient]) simp_all
  then show ?thesis by (simp only: float_quotient_10_10)
qed

lemmas fill_defs = fillGap_def align_def alignPair_def alignMulti_def
  mergePath_def getSequence_def outputNewContig_def provenance_def ratio_below_def
  float_quotient_Suc_4_10 float_quotient_Suc_10_10
  palindrome_check_def palindromes_check_def calculatePathCoverage_def
  min_element_def max_element_def
  example_env_def example_search_def Let_def

lemma example_fill0:
  "fillGap (example_env example_search)
     \<lparr>source = Contig 0 False, dest = Contig 2 False, dist = - 5\<rparr> seen w
   = Inr ([], seen,
          w\<lparr>events := events w @ [SearchCall (Contig 0 False) [(Contig 2 False, 1)]],
            stats := (stats w)\<lparr>notMerged := notMerged (stats w) + 1\<rparr>\<rparr>)"
  by (simp add: fill_defs)

lemma example_fill1:
  "fillGap (example_env example_search)
     \<lparr>source = Contig 6 True, dest = Contig 2 False, dist = - 4\<rparr> seen w
   = Inr ([], seen,
          w\<lparr>events := events w @ [SearchCall (Contig 6 True) [(Contig 2 False, 2)]],
            stats := (stats w)\<lparr>tooComplex := tooComplex (stats w) + 1\<rparr>\<rparr>)"
  by (simp add: fill_defs)

lemma example_fill2:
  "fillGap (example_env example_search)
     \<lparr>source = Contig 2 False, dest = Contig 5 False, dist = - 3\<rparr> seen w
   = Inr ([], seen,
          w\<lparr>events := events w @ [SearchCall (Contig 2 False) [(Contig 5 False, 3)]],
            stats := (stats w)\<lparr>numNoSolutions := numNoSolutions (stats w) + 1\<rparr>\<rparr>)"
  by (simp add: fill_defs)

lemma example_fill3:
  "fillGap (example_env example_search)
     \<lparr>source = Contig 4 False, dest = Contig 2 False, dist = - 8\<rparr> seen w
   = Inr ([Contig 4 False, Contig (nextContigID w) False, Contig 2 False],
          markSeenPaths seen [[Contig 4 False, Contig 1 False, Contig 2 False],
                              [Contig 4 False, Contig 6 False, Contig 2 False]] True,
          w\<lparr>events := events w @ [SearchCall (Contig 4 False) [(Contig 2 False, - 2)],
                                    AlignGlobalCall ''TTACGTACGG'' ''TTACGTTCGG''],
            nextContigID := Suc (nextContigID w),
            g_newVertices := g_newVertices w @
              [\<lparr>nv_t = Contig 4 False, nv_u = Contig (nextContigID w) False,
                nv_v = Contig 2 False, nv_vp = (10, 2)\<rparr>],
            fasta := fasta w @
              [\<lparr>fa_id = nextContigID w, fa_length = 10, fa_coverage = 2,
                fa_paths = [Some [Contig 1 False], Some [Contig 6 False]],
                fa_seq = ''TTACGTACGG''\<rparr>],
            stats := (stats w)\<lparr>numMerged := numMerged (stats w) + 1\<rparr>\<rparr>)"
  by (simp add: fill_defs)

lemma example_fill4:
  "fillGap (example_env example_search)
     \<lparr>source = Contig 5 False, dest = Contig 2 False, dist = - 2\<rparr> seen w
   = Inr ([], seen,
          w\<lparr>events := events w @ [SearchCall (Contig 5 False) [(Contig 2 False, 4)]],
            stats := (stats w)\<lparr>numMerged := numMerged (stats w) + 1\<rparr>\<rparr>)"
  by (simp add: fill_defs)



lemma example_resolveAll:
  "resolveAll (example_env example_search)
          [(\<lparr>source = Contig 0 False, dest = Contig 2 False, dist = - 5\<rparr>, []),
           (\<lparr>source = Contig 2 False, dest = Contig 5 False, dist = - 3\<rparr>, []),
           (\<lparr>source = Contig 4 False, dest = Contig 2 False, dist = - 8\<rparr>, []),
           (\<lparr>source = Contig 5 False, dest = Contig 2 False, dist = - 2\<rparr>, []),
           (\<lparr>source = Contig 6 True, dest = Contig 2 False, dist = - 4\<rparr>, [])]
      [False, False, False, False, False, False, False]
      \<lparr>stats = \<lparr>numAmbPaths = 5, numMerged = 0, numNoSolutions = 0,
                numTooManySolutions = 0, tooComplex = 0, notMerged = 0\<rparr>,
       g_newVertices = [], fasta = [], nextContigID = 100, events = []\<rparr>
   = Inr (example_registry,
          [False, True, True, False, True, False, True],
          \<lparr>stats = out_stats example_result, g_newVertices = out_newVertices example_result,
           fasta = out_fasta example_result, nextContigID = 101,
           events = out_events example_result\<rparr>)"
proof -
  have m: "markSeenPaths [False, False, False, False, False, False, False]
             [[Contig 4 False, Contig 1 False, Contig 2 False],
              [Contig 4 False, Contig 6 False, Contig 2 False]] True
           = [False, True, True, False, True, False, True]"
    by (simp add: numeral_eq_Suc)
  show ?thesis
    by (simp add: example_fill0 example_fill1 example_fill2 example_fill3 example_fill4 m
          example_registry_def example_result_def)
qed



lemma main_run_stages:
  assumes "0 < opt_k e" "g_contigs e \<noteq> []"
    and "readPath records = (paths, ids, isAmb, reg)"
    and "resolveAll e reg (replicate (length (g_contigs e)) False)
           \<lparr>stats = \<lparr>numAmbPaths = length reg, numMerged = 0, numNoSolutions = 0,
                     numTooManySolutions = 0, tooComplex = 0, notMerged = 0\<rparr>,
            g_newVertices = [], fasta = [], nextContigID = first_id, events = []\<rparr>
         = Inr (reg', seen1, w1)"
    and "rewritePaths reg' (zip ids (zip paths isAmb)) = Inr path_lines"
  shows "main_run e records first_id =
           Inr \<lparr>out_lines =
                   map ContigLine
                     (filter (\<lambda>i. markSeenPaths (markSeenPaths seen1 (map snd reg') False)
                                   paths False ! i)
                        [0 ..< length (g_contigs e)])
                   @ path_lines,
                 out_fasta = fasta w1, out_stats = stats w1,
                 out_newVertices = g_newVertices w1, out_events = events w1,
                 out_registry = reg'\<rparr>"
  using assms by (simp add: main_run_def)

lemma example_run:
  "main_run (example_env example_search) example_records 100 = Inr example_result"
proof -
  let ?e = "example_env example_search"
  let ?reg = "[(\<lparr>source = Contig 0 False, dest = Contig 2 False, dist = - 5\<rparr>, []),
       (\<lparr>source = Contig 2 False, dest = Contig 5 False, dist = - 3\<rparr>, []),
       (\<lparr>source = Contig 4 False, dest = Contig 2 False, dist = - 8\<rparr>, []),
       (\<lparr>source = Contig 5 False, dest = Contig 2 False, dist = - 2\<rparr>, []),
       (\<lparr>source = Contig 6 True, dest = Contig 2 False, dist = - 4\<rparr>, [])]"
  let ?w1 = "\<lparr>stats = out_stats example_result, g_newVertices = out_newVertices example_result,
           fasta = out_fasta example_result, nextContigID = 101,
           events = out_events example_result\<rparr>"
  have k: "0 < opt_k ?e" and c: "g_contigs ?e \<noteq> []" and n: "length (g_contigs ?e) = 7"
    by (simp_all add: example_env_def)
  have seen0: "replicate 7 False = [False, False, False, False, False, False, False]"
    by (simp add: numeral_eq_Suc)
  have len: "length ?reg = 5" by simp
  have res: "resolveAll ?e ?reg (replicate (length (g_contigs ?e)) False)
           \<lparr>stats = \<lparr>numAmbPaths = length ?reg, numMerged = 0, numNoSolutions = 0,
                     numTooManySolutions = 0, tooComplex = 0, notMerged = 0\<rparr>,
            g_newVertices = [], fasta = [], nextContigID = 100, events = []\<rparr>
         = Inr (example_registry, [False, True, True, False, True, False, True], ?w1)"
    unfolding n len seen0 by (rule example_resolveAll)
  have recs: "map snd example_records =
      [[Contig 0 False, Ambiguous 5, Contig 2 False, Ambiguous 3, Contig 5 False],
       [Contig 4 False, Ambiguous 8, Contig 2 False],
       [Contig 0 False, Ambiguous 5, Contig 2 False],
       [Contig 5 False, Ambiguous 2, Contig 2 False],
       [Contig 6 True, Ambiguous 4, Contig 2 False],
       [Contig 0 False, Contig 3 False]]"
    "map fst example_records = [''7'', ''8'', ''9'', ''10'', ''11'', ''12'']"
    by (simp_all add: example_records_def)
  have s2: "markSeenPaths [False, True, True, False, True, False, True]
              (map snd example_registry) False
            = [False, True, False, False, False, False, True]"
    by (simp add: example_registry_def numeral_eq_Suc)
  have s3: "markSeenPaths [False, True, False, False, False, False, True]
              (map snd example_records) False
            = [False, True, False, False, False, False, False]"
    unfolding recs by (simp add: numeral_eq_Suc)
  have cl: "filter (\<lambda>i. [False, True, False, False, False, False, False] ! i) [0..<7] = [1]"
    by (simp add: upt_rec numeral_eq_Suc)
  have rw: "rewritePaths example_registry
              (zip (map fst example_records)
                 (zip (map snd example_records) [True, True, True, True, True, False]))
            = Inr (tl (out_lines example_result))"
    unfolding recs
    by (simp add: example_registry_def example_result_def constraint_lt_def node_lt_def)
  show ?thesis
    unfolding main_run_stages [OF k c example_readPath res rw] s2 s3 n cl
    by (simp add: example_result_def)
qed

section \<open>Outcomes of a gap\<close>

theorem fillGap_too_complex_witness:
  "opt_maxCost (example_env example_search)
     \<le> visited (example_env example_search)
          \<lparr>source = Contig 6 True, dest = Contig 2 False, dist = - 4\<rparr>
   \<and> length (candidates (example_env example_search)
          \<lparr>source = Contig 6 True, dest = Contig 2 False, dist = - 4\<rparr>) = 5
   \<and> fillGap (example_env example_search)
        \<lparr>source = Contig 6 True, dest = Contig 2 False, dist = - 4\<rparr> [False, True] example_world
      = Inr ([], [False, True],
             example_world
               \<lparr>events := [SearchCall (Contig 6 True) [(Contig 2 False, 2)]],
                 stats := (stats example_world)\<lparr>tooComplex := 1\<rparr>\<rparr>)"
proof -
  let ?e = "example_env example_search"
  let ?c = "\<lparr>source = Contig 6 True, dest = Contig 2 False, dist = - 4\<rparr>"
  have h: "opt_maxCost ?e \<le> visited ?e ?c"
    by (simp add: visited_def example_env_def example_search_def)
  have n: "length (candidates ?e ?c) = 5"
    by (simp add: candidates_def example_env_def example_search_def)
  have "fillGap ?e ?c [False, True] example_world
      = Inr ([], [False, True],
             example_world
               \<lparr>events := events example_world @ [search_call ?e ?c],
                 stats := (stats example_world)
                   \<lparr>tooComplex := tooComplex (stats example_world) + 1\<rparr>\<rparr>)"
    by (rule fillGap_too_complex [OF h])
  then show ?thesis using h n
    by (simp add: search_call_def example_world_def example_env_def)
qed

text \<open>
  Claim C10. A call of \<^verbatim>\<open>fillGap\<close> that returns has incremented exactly one of the
  five outcome counters, by one; and when the run completes, the five counters of the
  summary add up to the count of ambiguous paths, which is the number of constraints in
  the registry.
\<close>

theorem outcome_counters:
  "(fillGap e c seen w = Inr (r, seen', w') \<longrightarrow>
       stats w' = (stats w)\<lparr>numMerged := numMerged (stats w) + 1\<rparr>
     \<or> stats w' = (stats w)\<lparr>numNoSolutions := numNoSolutions (stats w) + 1\<rparr>
     \<or> stats w' = (stats w)\<lparr>numTooManySolutions := numTooManySolutions (stats w) + 1\<rparr>
     \<or> stats w' = (stats w)\<lparr>tooComplex := tooComplex (stats w) + 1\<rparr>
     \<or> stats w' = (stats w)\<lparr>notMerged := notMerged (stats w) + 1\<rparr>)
   \<and> (main_run e records first_id = Inr res \<longrightarrow>
         outcome_total (out_stats res) = numAmbPaths (out_stats res)
       \<and> numAmbPaths (out_stats res) = length (out_registry res))"
proof (intro conjI impI)
  assume "fillGap e c seen w = Inr (r, seen', w')"
  then show "stats w' = (stats w)\<lparr>numMerged := numMerged (stats w) + 1\<rparr>
     \<or> stats w' = (stats w)\<lparr>numNoSolutions := numNoSolutions (stats w) + 1\<rparr>
     \<or> stats w' = (stats w)\<lparr>numTooManySolutions := numTooManySolutions (stats w) + 1\<rparr>
     \<or> stats w' = (stats w)\<lparr>tooComplex := tooComplex (stats w) + 1\<rparr>
     \<or> stats w' = (stats w)\<lparr>notMerged := notMerged (stats w) + 1\<rparr>"
    by (rule fillGap_counter)
next
  assume m: "main_run e records first_id = Inr res"
  from main_run_unfold [OF m] obtain seen1 w1 where
    r: "resolveAll e (snd (snd (snd (readPath records))))
            (replicate (length (g_contigs e)) False)
            \<lparr>stats = \<lparr>numAmbPaths = length (snd (snd (snd (readPath records)))), numMerged = 0,
                      numNoSolutions = 0, numTooManySolutions = 0, tooComplex = 0, notMerged = 0\<rparr>,
             g_newVertices = [], fasta = [], nextContigID = first_id, events = []\<rparr>
          = Inr (out_registry res, seen1, w1)"
    and s: "out_stats res = stats w1" by blast
  have l: "length (out_registry res) = length (snd (snd (snd (readPath records))))"
    using resolveAll_total [OF r] by (metis length_map)
  show "outcome_total (out_stats res) = numAmbPaths (out_stats res)"
    using resolveAll_total [OF r] s by (simp add: outcome_total_def)
  show "numAmbPaths (out_stats res) = length (out_registry res)"
    using resolveAll_total [OF r] s l by simp
qed

theorem outcome_counters_witness:
  "main_run (example_env example_search) example_records 100 = Inr example_result
   \<and> outcome_total (out_stats example_result) = 5
   \<and> numAmbPaths (out_stats example_result) = 5
   \<and> length (out_registry example_result) = 5
   \<and> fillGap (example_env example_search)
        \<lparr>source = Contig 2 False, dest = Contig 5 False, dist = - 3\<rparr> [] example_world
      = Inr ([], [], example_world
               \<lparr>events := events example_world @ [SearchCall (Contig 2 False) [(Contig 5 False, 3)]],
                 stats := (stats example_world)
                    \<lparr>numNoSolutions := numNoSolutions (stats example_world) + 1\<rparr>\<rparr>)"
proof -
  have a: "outcome_total (out_stats example_result) = numAmbPaths (out_stats example_result)
       \<and> numAmbPaths (out_stats example_result) = length (out_registry example_result)"
    using outcome_counters [of "example_env example_search" _ _ _ _ _ _ example_records 100
            example_result] example_run by blast
  have b: "numAmbPaths (out_stats example_result) = 5" by (simp add: example_result_def)
  show ?thesis using a b example_run example_fill2 by simp
qed

text \<open>
  Claim C1 does not hold of the code. For a gap whose search returns one candidate
  within the budget, \<^verbatim>\<open>fillGap\<close> counts the gap as merged but never assigns the
  candidate to \<^verbatim>\<open>consensus\<close>: the registry keeps the empty resolution and the
  rewritten path keeps the ambiguous node, where the claim has the interior of the
  candidate, contig 1.
\<close>

theorem single_candidate_not_spliced:
  "candidates (example_env example_search)
      \<lparr>source = Contig 5 False, dest = Contig 2 False, dist = - 2\<rparr>
     = [[Contig 5 False, Contig 1 False, Contig 2 False]]
   \<and> visited (example_env example_search)
      \<lparr>source = Contig 5 False, dest = Contig 2 False, dist = - 2\<rparr>
     < opt_maxCost (example_env example_search)
   \<and> main_run (example_env example_search)
        [(''10'', [Contig 5 False, Ambiguous 2, Contig 2 False])] 100
     = Inr \<lparr>out_lines = [PathLine ''10'' [Contig 5 False, Ambiguous 2, Contig 2 False]],
            out_fasta = [],
            out_stats = \<lparr>numAmbPaths = 1, numMerged = 1, numNoSolutions = 0,
                          numTooManySolutions = 0, tooComplex = 0, notMerged = 0\<rparr>,
            out_newVertices = [],
            out_events = [SearchCall (Contig 5 False) [(Contig 2 False, 4)]],
            out_registry =
              [(\<lparr>source = Contig 5 False, dest = Contig 2 False, dist = - 2\<rparr>, [])]\<rparr>"
proof -
  let ?e = "example_env example_search"
  let ?c = "\<lparr>source = Contig 5 False, dest = Contig 2 False, dist = - 2\<rparr>"
  let ?recs = "[(''10'', [Contig 5 False, Ambiguous 2, Contig 2 False])]"
  let ?w1 = "\<lparr>stats = \<lparr>numAmbPaths = 1, numMerged = 1, numNoSolutions = 0,
                          numTooManySolutions = 0, tooComplex = 0, notMerged = 0\<rparr>,
            g_newVertices = [], fasta = [], nextContigID = 100,
            events = [SearchCall (Contig 5 False) [(Contig 2 False, 4)]]\<rparr>"
  have k: "0 < opt_k ?e" and c: "g_contigs ?e \<noteq> []" and n: "length (g_contigs ?e) = 7"
    by (simp_all add: example_env_def)
  have cand: "candidates ?e ?c = [[Contig 5 False, Contig 1 False, Contig 2 False]]"
    by (simp add: candidates_def example_env_def example_search_def)
  have vis: "visited ?e ?c < opt_maxCost ?e"
    by (simp add: visited_def example_env_def example_search_def)
  have rp: "readPath ?recs = (map snd ?recs, map fst ?recs, [True], [(?c, [])])"
    by (simp add: readPath_def)
  have res: "resolveAll ?e [(?c, [])] (replicate (length (g_contigs ?e)) False)
           \<lparr>stats = \<lparr>numAmbPaths = length [(?c, [] :: ContigPath)], numMerged = 0, numNoSolutions = 0,
                     numTooManySolutions = 0, tooComplex = 0, notMerged = 0\<rparr>,
            g_newVertices = [], fasta = [], nextContigID = 100, events = []\<rparr>
         = Inr ([(?c, [])], replicate (length (g_contigs ?e)) False, ?w1)"
    by (simp add: example_fill4)
  have rw: "rewritePaths [(?c, [])] (zip (map fst ?recs) (zip (map snd ?recs) [True]))
            = Inr [PathLine ''10'' [Contig 5 False, Ambiguous 2, Contig 2 False]]"
    by (simp add: constraint_lt_def node_lt_def)
  have m: "markSeenPaths (markSeenPaths (replicate 7 False) (map snd [(?c, [] :: ContigPath)]) False)
              (map snd ?recs) False = replicate 7 False"
    by (simp add: numeral_eq_Suc)
  have f: "filter (\<lambda>i. replicate 7 False ! i) [0..<7] = []"
    by (simp add: filter_empty_conv)
  show ?thesis
    unfolding main_run_stages [OF k c rp res rw] n m f
    using cand vis by simp
qed

section \<open>Properties of the consensus builders\<close>

lemma complement_involution: "complement (complement a) = a"
  by (cases a) simp_all

lemma complement_fixed: "(a = complement a) = ambiguous a"
  by (cases a) auto

lemma list_all_zip_eq:
  "length xs = length ys \<Longrightarrow> list_all (\<lambda>(a, b). a = b) (zip xs ys) = (xs = ys)"
  by (induction xs ys rule: list_induct2) auto

lemma palindrome_check_same:
  "palindrome_check (x # xs) (x # ys) = palindrome_check xs ys"
  by (simp add: palindrome_check_def)

lemma palindrome_check_diff:
  "x \<noteq> y \<Longrightarrow> length xs = length ys \<Longrightarrow>
   (palindrome_check (x # xs) (y # ys) = Inr ()) = (x = complement y \<and> xs = ys)"
  by (simp add: palindrome_check_def list_all_zip_eq)

lemma palindrome_check_iff:
  "length f = length s \<Longrightarrow>
   (palindrome_check f s = Inr ())
   = (\<exists>pre a post. f = pre @ a # post \<and> s = pre @ complement a # post \<and> \<not> ambiguous a)"
proof (induction f s rule: list_induct2)
  case Nil
  then show ?case by (simp add: palindrome_check_def)
next
  case (Cons x xs y ys)
  show ?case
  proof (cases "x = y")
    case True
    have "(\<exists>pre a post. x # xs = pre @ a # post \<and> y # ys = pre @ complement a # post
              \<and> \<not> ambiguous a)
        = (\<exists>pre a post. xs = pre @ a # post \<and> ys = pre @ complement a # post \<and> \<not> ambiguous a)"
      (is "?L = ?R")
    proof
      assume ?L
      then obtain pre a post where h: "x # xs = pre @ a # post"
        "y # ys = pre @ complement a # post" "\<not> ambiguous a" by blast
      have "pre \<noteq> []"
      proof
        assume "pre = []"
        with h True have "a = complement a" by simp
        with h(3) show False by (simp add: complement_fixed)
      qed
      then obtain p pre' where "pre = p # pre'" by (cases pre) auto
      with h show ?R by auto
    next
      assume ?R
      then obtain pre a post where "xs = pre @ a # post"
        "ys = pre @ complement a # post" "\<not> ambiguous a" by blast
      then have "x # xs = (x # pre) @ a # post \<and> y # ys = (x # pre) @ complement a # post
                 \<and> \<not> ambiguous a" using True by simp
      then show ?L by blast
    qed
    then show ?thesis using True Cons.IH by (simp add: palindrome_check_same)
  next
    case False
    have "(\<exists>pre a post. x # xs = pre @ a # post \<and> y # ys = pre @ complement a # post
              \<and> \<not> ambiguous a)
        = (x = complement y \<and> xs = ys)" (is "?L = ?R")
    proof
      assume ?L
      then obtain pre a post where h: "x # xs = pre @ a # post"
        "y # ys = pre @ complement a # post" "\<not> ambiguous a" by blast
      have "pre = []"
      proof (cases pre)
        case Nil then show ?thesis .
      next
        case (Cons p pre')
        with h False show ?thesis by simp
      qed
      with h show ?R by (simp add: complement_involution)
    next
      assume r: ?R
      then have "\<not> ambiguous x" using False by (cases y) auto
      then have "x # xs = [] @ x # xs \<and> y # ys = [] @ complement x # xs \<and> \<not> ambiguous x"
        using r by (simp add: complement_involution)
      then show ?L by blast
    qed
    then show ?thesis using palindrome_check_diff [OF False Cons.hyps] by simp
  qed
qed

lemma alignPair_general:
  assumes "1 < length p1" "1 < length p2" "hd p1 = hd p2" "last p1 = last p2"
    and "butlast (tl p1) \<noteq> []" "butlast (tl p2) \<noteq> []"
    and "mergePath e (butlast (tl p1)) w = Inr (f, w1)"
    and "mergePath e (butlast (tl p2)) w1 = Inr (s, w2)"
  shows "alignPair e [p1, p2] w =
     (if f = s then
        (if length (butlast (tl p1)) = length (butlast (tl p2)) then
           (case palindrome_check (butlast (tl p1)) (butlast (tl p2)) of
              Inl err \<Rightarrow> Inl err
            | Inr u \<Rightarrow> Inr (p1, w2))
         else
           Inr ([p1, p2] ! (if length (butlast (tl p1)) > length (butlast (tl p2)) then 0 else 1),
                w2\<lparr>events := events w2
                      @ [TransitiveEdgeWarning (butlast (tl p1)) (butlast (tl p2))]\<rparr>))
      else if ratio_below e (min (length f) (length s)) (max (length f) (length s))
      then Inr ([], w2)
      else
        (case alignGlobal e f s of
           (match, align_size, align_consensus) \<Rightarrow>
             let w3 = w2\<lparr>events := events w2 @ [AlignGlobalCall f s]\<rparr> in
             if ratio_below e match align_size then Inr ([], w3)
             else
               (case outputNewContig [p1, p2] 1 1 align_consensus
                       (calculatePathCoverage e (butlast (tl p1))
                        + calculatePathCoverage e (butlast (tl p2))) w3 of
                  Inl err \<Rightarrow> Inl err
                | Inr (new_id, w4) \<Rightarrow>
                    Inr ([hd p1, Contig new_id False, last p1], w4))))"
  using assms by (auto simp: alignPair_def Let_def split: sum.splits prod.splits)


text \<open>
  Claim C8, as amended. In \<^verbatim>\<open>alignPair\<close>, for two candidates that pass the entry
  assertions, whose interiors are not empty, merge to the same sequence and have the
  same number of nodes: when the interiors first differ at a real contig whose
  counterpart is its complement and agree after it, the first candidate is returned as
  it is, and no contig is synthesized and no alignment is called; in every other case
  one of the three palindrome assertions fails and ends the run.
\<close>

theorem alignPair_palindrome:
  assumes "1 < length p1" "1 < length p2" "hd p1 = hd p2" "last p1 = last p2"
    and "butlast (tl p1) \<noteq> []" "butlast (tl p2) \<noteq> []"
    and "mergePath e (butlast (tl p1)) w = Inr (f, w1)"
    and "mergePath e (butlast (tl p2)) w1 = Inr (f, w2)"
    and "length (butlast (tl p1)) = length (butlast (tl p2))"
  shows "((\<exists>pre a post. butlast (tl p1) = pre @ a # post
                      \<and> butlast (tl p2) = pre @ complement a # post \<and> \<not> ambiguous a)
          \<longrightarrow> alignPair e [p1, p2] w = Inr (p1, w2)
              \<and> fasta w2 = fasta w \<and> g_newVertices w2 = g_newVertices w
              \<and> nextContigID w2 = nextContigID w
              \<and> filter is_align_call (events w2) = filter is_align_call (events w))
       \<and> (\<not> (\<exists>pre a post. butlast (tl p1) = pre @ a # post
                      \<and> butlast (tl p2) = pre @ complement a # post \<and> \<not> ambiguous a)
          \<longrightarrow> (\<exists>msg. alignPair e [p1, p2] w = Inl (AssertionFailed msg)))"
proof -
  let ?pal = "\<exists>pre a post. butlast (tl p1) = pre @ a # post
                      \<and> butlast (tl p2) = pre @ complement a # post \<and> \<not> ambiguous a"
  have u: "alignPair e [p1, p2] w =
             (case palindrome_check (butlast (tl p1)) (butlast (tl p2)) of
                Inl err \<Rightarrow> Inl err
              | Inr u \<Rightarrow> Inr (p1, w2))"
    using alignPair_general [OF assms(1-8)] assms(9) by simp
  have iff: "(palindrome_check (butlast (tl p1)) (butlast (tl p2)) = Inr ()) = ?pal"
    by (rule palindrome_check_iff [OF assms(9)])
  have fr: "same_but_warnings w w2"
    using mergePath_frame [OF assms(7)] mergePath_frame [OF assms(8)]
    by (rule same_but_warnings_trans)
  have a: "?pal \<longrightarrow> alignPair e [p1, p2] w = Inr (p1, w2)"
  proof
    assume ?pal
    then have "palindrome_check (butlast (tl p1)) (butlast (tl p2)) = Inr ()"
      using iff by blast
    then show "alignPair e [p1, p2] w = Inr (p1, w2)" using u by simp
  qed
  have b: "\<not> ?pal \<longrightarrow> (\<exists>msg. alignPair e [p1, p2] w = Inl (AssertionFailed msg))"
  proof
    assume "\<not> ?pal"
    then have "palindrome_check (butlast (tl p1)) (butlast (tl p2)) \<noteq> Inr ()"
      using iff by simp
    then obtain msg where
      "palindrome_check (butlast (tl p1)) (butlast (tl p2)) = Inl (AssertionFailed msg)"
      by (auto simp: palindrome_check_def split: list.splits if_splits)
    then show "\<exists>msg. alignPair e [p1, p2] w = Inl (AssertionFailed msg)"
      using u by simp
  qed
  show ?thesis using a b fr by (simp add: same_but_warnings_def)
qed


theorem alignPair_palindrome_witness:
  "alignPair ((example_env example_search)\<lparr>g_contigs := [''ACGTT'', ''ACGT'', ''GGCAT'']\<rparr>)
      [[Contig 0 False, Contig 1 False, Contig 2 False],
       [Contig 0 False, Contig 1 True, Contig 2 False]] example_world
   = Inr ([Contig 0 False, Contig 1 False, Contig 2 False], example_world)"
proof -
  let ?e = "(example_env example_search)\<lparr>g_contigs := [''ACGTT'', ''ACGT'', ''GGCAT'']\<rparr>"
  let ?p1 = "[Contig 0 False, Contig 1 False, Contig 2 False]"
  let ?p2 = "[Contig 0 False, Contig 1 True, Contig 2 False]"
  have m1: "mergePath ?e (butlast (tl ?p1)) example_world = Inr (''ACGT'', example_world)"
    by (simp add: mergePath_def getSequence_def example_env_def)
  have m2: "mergePath ?e (butlast (tl ?p2)) example_world = Inr (''ACGT'', example_world)"
    by (simp add: mergePath_def getSequence_def example_env_def)
  have pal: "\<exists>pre a post. butlast (tl ?p1) = pre @ a # post
                      \<and> butlast (tl ?p2) = pre @ complement a # post \<and> \<not> ambiguous a"
  proof -
    have "butlast (tl ?p1) = [] @ Contig 1 False # []
        \<and> butlast (tl ?p2) = [] @ complement (Contig 1 False) # []
        \<and> \<not> ambiguous (Contig 1 False)" by simp
    then show ?thesis by blast
  qed
  have "alignPair ?e [?p1, ?p2] example_world = Inr (?p1, example_world)"
    using alignPair_palindrome [of ?p1 ?p2 ?e example_world "''ACGT''" example_world
            example_world] m1 m2 pal by simp
  then show ?thesis .
qed

text \<open>
  Claim C8 as the spec states it fails: contigs 1 and 4 of the instance have the same
  sequence, so the candidates through them merge to identical sequences and have equal
  node counts, but the first candidate is not returned: the second palindrome assertion
  ends the run.
\<close>

theorem alignPair_palindrome_counterexample:
  "g_contigs (example_env example_search) ! 1 = g_contigs (example_env example_search) ! 4
   \<and> alignPair (example_env example_search)
      [[Contig 0 False, Contig 1 False, Contig 2 False],
       [Contig 0 False, Contig 4 False, Contig 2 False]] example_world
     = Inl (AssertionFailed ''*it.first == ~*it.second'')"
  by (simp add: alignPair_def mergePath_def getSequence_def palindrome_check_def
        example_env_def Let_def)

section \<open>Properties of the length-ratio test\<close>

subsection \<open>The rounding error of the quotient\<close>

lemma bit_length_upper: "n < 2 ^ bit_length n"
proof (induction n rule: bit_length.induct)
  case (1 n)
  show ?case
  proof (cases "n = 0")
    case True
    then show ?thesis by (subst bit_length.simps) simp
  next
    case False
    then have "n div 2 < 2 ^ bit_length (n div 2)" using 1 by simp
    then have "n < 2 * 2 ^ bit_length (n div 2)" by arith
    then show ?thesis using False by (subst bit_length.simps) simp
  qed
qed

lemma bit_length_pos: "0 < n \<Longrightarrow> 0 < bit_length n"
  by (subst bit_length.simps) simp

lemma bit_length_lower: "0 < n \<Longrightarrow> 2 ^ (bit_length n - 1) \<le> n"
proof (induction n rule: bit_length.induct)
  case (1 n)
  have b: "bit_length n - 1 = bit_length (n div 2)"
    using 1(2) by (subst bit_length.simps) simp
  show ?case
  proof (cases "n div 2 = 0")
    case True
    then have "bit_length (n div 2) = 0" by (subst bit_length.simps) simp
    then show ?thesis using b 1(2) by simp
  next
    case False
    then have ih: "2 ^ (bit_length (n div 2) - 1) \<le> n div 2" using 1 by simp
    have "0 < bit_length (n div 2)" using False bit_length_pos by simp
    then have "(2::nat) ^ bit_length (n div 2) = 2 * 2 ^ (bit_length (n div 2) - 1)"
      by (metis power_minus_mult mult.commute)
    then have "(2::nat) ^ bit_length (n div 2) \<le> n" using ih by arith
    then show ?thesis using b by simp
  qed
qed

lemma pow2_powi: "pow2 i = 2 powi i"
proof (cases "0 \<le> i")
  case True
  then show ?thesis by (simp add: pow2_def power_int_def)
next
  case False
  have "inverse (2::rat) ^ nat (- i) = 1 / 2 ^ nat (- i)"
    by (simp only: inverse_eq_divide power_one_over)
  then show ?thesis using False by (simp only: pow2_def power_int_def if_False)
qed

lemma pow2_pos: "0 < pow2 i"
  by (simp add: pow2_powi)

lemma pow2_add: "pow2 (i + j) = pow2 i * pow2 j"
  by (simp add: pow2_powi power_int_add)

lemma pow2_nat: "pow2 (int n) = 2 ^ n"
  by (simp add: pow2_def)

lemma round_half_even_div_bounds:
  assumes "0 < q"
  shows "2 * p \<le> 2 * (round_half_even_div p q * q) + q"
    and "2 * (round_half_even_div p q * q) \<le> 2 * p + q"
proof -
  define d where "d = p div q"
  define r where "r = p mod q"
  have p: "p = d * q + r" by (simp add: d_def r_def)
  have r: "r < q" using assms by (simp add: r_def)
  have m: "round_half_even_div p q = d \<and> 2 * r \<le> q
         \<or> round_half_even_div p q = d + 1 \<and> q \<le> 2 * r"
    unfolding round_half_even_div_def d_def [symmetric] r_def [symmetric]
    by (auto simp: Let_def)
  show "2 * p \<le> 2 * (round_half_even_div p q * q) + q"
    using m r unfolding p by (auto simp: algebra_simps)
  show "2 * (round_half_even_div p q * q) \<le> 2 * p + q"
    using m r unfolding p by (auto simp: algebra_simps)
qed

lemma round_half_even_div_rat:
  assumes "0 < q"
  shows "\<bar>(of_nat (round_half_even_div p q) :: rat) - of_nat p / of_nat q\<bar> \<le> 1 / 2"
proof -
  let ?m = "round_half_even_div p q"
  have a: "(2 * of_nat p :: rat) \<le> 2 * (of_nat ?m * of_nat q) + of_nat q"
    using round_half_even_div_bounds(1) [OF assms, of p]
    by (metis (mono_tags, opaque_lifting) of_nat_add of_nat_le_iff of_nat_mult of_nat_numeral)
  have b: "(2 * (of_nat ?m * of_nat q) :: rat) \<le> 2 * of_nat p + of_nat q"
    using round_half_even_div_bounds(2) [OF assms, of p]
    by (metis (mono_tags, opaque_lifting) of_nat_add of_nat_le_iff of_nat_mult of_nat_numeral)
  have q: "(0::rat) < of_nat q" using assms by simp
  have "(of_nat ?m :: rat) - of_nat p / of_nat q \<le> 1 / 2"
    using b q by (simp add: field_simps)
  moreover have "- (1 / 2) \<le> (of_nat ?m :: rat) - of_nat p / of_nat q"
    using a q by (simp add: field_simps)
  ultimately show ?thesis unfolding abs_le_iff by linarith
qed


lemma pow2_diff: "pow2 (i - j) = pow2 i / pow2 j"
  by (simp add: pow2_powi power_int_diff)

lemma pow2_numeral_23: "pow2 23 = 2 ^ 23"
  using pow2_nat [of 23] by simp

lemma scaled_error:
  fixes m x s y :: rat
  assumes "\<bar>m - x\<bar> \<le> 1 / 2" "2 ^ 23 \<le> x" "y = x * s" "0 < s"
  shows "\<bar>m * s - y\<bar> \<le> y / 2 ^ 24"
proof -
  have "m * s - y = (m - x) * s" using assms(3) by (simp add: algebra_simps)
  then have "\<bar>m * s - y\<bar> = \<bar>m - x\<bar> * s"
    using assms(4) by (simp add: abs_mult)
  also have "\<dots> \<le> 1 / 2 * s" using assms(1,4) by (simp add: mult_right_mono)
  also have "\<dots> \<le> x / 2 ^ 24 * s"
  proof -
    have "(1 / 2 :: rat) \<le> x / 2 ^ 24" using assms(2) by simp
    then show ?thesis using assms(4) by (simp add: mult_right_mono)
  qed
  also have "\<dots> = y / 2 ^ 24" using assms(3) by simp
  finally show ?thesis .
qed

lemma ratio_lower:
  assumes "0 < p" "0 < q"
  shows "pow2 (int (bit_length p) - int (bit_length q) - 1) \<le> (of_nat p :: rat) / of_nat q"
proof -
  have bp: "0 < bit_length p" using assms(1) by (rule bit_length_pos)
  have "(2::nat) ^ (bit_length p - 1) \<le> p" using assms(1) by (rule bit_length_lower)
  then have "(of_nat ((2::nat) ^ (bit_length p - 1)) :: rat) \<le> of_nat p"
    by (simp only: of_nat_le_iff)
  then have lo: "pow2 (int (bit_length p - 1)) \<le> (of_nat p :: rat)"
    by (simp add: pow2_nat)
  have "q < 2 ^ bit_length q" by (rule bit_length_upper)
  then have "(of_nat q :: rat) < of_nat ((2::nat) ^ bit_length q)"
    by (simp only: of_nat_less_iff)
  then have hi: "(of_nat q :: rat) \<le> pow2 (int (bit_length q))"
    by (simp add: pow2_nat)
  have qp: "(0::rat) < of_nat q" using assms(2) by simp
  have e: "int (bit_length p) - int (bit_length q) - 1
           = int (bit_length p - 1) - int (bit_length q)" using bp by simp
  have "pow2 (int (bit_length p - 1)) / pow2 (int (bit_length q))
        \<le> (of_nat p :: rat) / of_nat q"
    using lo hi qp pow2_pos [of "int (bit_length p - 1)"]
    by (intro frac_le) simp_all
  then show ?thesis unfolding e pow2_diff .
qed

lemma round32_error:
  assumes "0 < p" "0 < q"
  shows "\<bar>float_value (round32 p q) - of_nat p / of_nat q\<bar> \<le> of_nat p / of_nat q / 2 ^ 24"
proof -
  define k where "k = int (bit_length p) - int (bit_length q)"
  define p' where "p' = (if k \<le> 24 then p * 2 ^ nat (24 - k) else p)"
  define q' where "q' = (if k \<le> 24 then q else q * 2 ^ nat (k - 24))"
  define y :: rat where "y = of_nat p / of_nat q"
  have r: "round32 p q =
      (if 2 ^ 24 * q' \<le> p' then (round_half_even_div p' (2 * q'), k - 23)
       else (round_half_even_div p' q', k - 24))"
    using assms(1) unfolding round32_def k_def p'_def q'_def by (simp add: Let_def)
  have q'pos: "0 < q'" using assms(2) by (simp add: q'_def)
  have scale: "(of_nat p' :: rat) / of_nat q' = y * pow2 (24 - k)"
  proof (cases "k \<le> 24")
    case True
    then have "pow2 (24 - k) = 2 ^ nat (24 - k)" by (simp add: pow2_def)
    then show ?thesis using True by (simp add: p'_def q'_def y_def)
  next
    case False
    then have "pow2 (24 - k) = 1 / 2 ^ nat (k - 24)" by (simp add: pow2_def)
    then show ?thesis using False by (simp add: p'_def q'_def y_def)
  qed
  have "pow2 (k - 1) \<le> y" using ratio_lower [OF assms] by (simp add: k_def y_def)
  then have "pow2 (k - 1) * pow2 (24 - k) \<le> y * pow2 (24 - k)"
    using pow2_pos [of "24 - k"] by (simp add: mult_right_mono)
  then have low: "2 ^ 23 \<le> (of_nat p' :: rat) / of_nat q'"
    unfolding scale pow2_add [symmetric] using pow2_numeral_23 by simp
  have unscale: "y = (of_nat p' :: rat) / of_nat q' * pow2 (k - 24)"
  proof -
    have "pow2 (24 - k) * pow2 (k - 24) = 1"
      unfolding pow2_add [symmetric] by (simp add: pow2_def)
    then show ?thesis unfolding scale by (simp add: mult.assoc)
  qed
  show ?thesis
  proof (cases "2 ^ 24 * q' \<le> p'")
    case True
    let ?m = "round_half_even_div p' (2 * q')"
    have v: "float_value (round32 p q) = of_nat ?m * pow2 (k - 23)"
      using True r by (simp add: float_value_def)
    have a: "\<bar>(of_nat ?m :: rat) - of_nat p' / of_nat (2 * q')\<bar> \<le> 1 / 2"
      using q'pos by (intro round_half_even_div_rat) simp
    have "(of_nat (2 ^ 24 * q') :: rat) \<le> of_nat p'" using True by (simp only: of_nat_le_iff)
    then have b: "2 ^ 23 \<le> (of_nat p' :: rat) / of_nat (2 * q')"
      using q'pos by (simp add: field_simps)
    have "pow2 (k - 23) = pow2 (k - 24) * pow2 1"
      unfolding pow2_add [symmetric] by simp
    then have p23: "pow2 (k - 23) = pow2 (k - 24) * 2" by (simp add: pow2_def)
    have c: "y = (of_nat p' :: rat) / of_nat (2 * q') * pow2 (k - 23)"
      unfolding unscale p23 by simp
    show ?thesis unfolding v y_def [symmetric]
      by (rule scaled_error [OF a b c pow2_pos])
  next
    case False
    let ?m = "round_half_even_div p' q'"
    have v: "float_value (round32 p q) = of_nat ?m * pow2 (k - 24)"
      using False r by (simp add: float_value_def)
    have a: "\<bar>(of_nat ?m :: rat) - of_nat p' / of_nat q'\<bar> \<le> 1 / 2"
      using q'pos by (rule round_half_even_div_rat)
    show ?thesis unfolding v y_def [symmetric]
      by (rule scaled_error [OF a low unscale pow2_pos])
  qed
qed


lemma float_of_nat_error:
  assumes "0 < n"
  shows "\<bar>float_value (float_of_nat n) - of_nat n\<bar> \<le> of_nat n / 2 ^ 24"
  using round32_error [OF assms, of 1] by (simp add: float_of_nat_def)

lemma float_of_nat_pos:
  assumes "0 < n"
  shows "0 < fst (float_of_nat n)"
proof -
  have "(0::rat) < of_nat n" using assms by simp
  then have "(of_nat n :: rat) / 2 ^ 24 < of_nat n" by simp
  then have "0 < float_value (float_of_nat n)"
    using float_of_nat_error [OF assms] by linarith
  then show ?thesis
    unfolding float_value_def using pow2_pos [of "snd (float_of_nat n)"]
    by (simp add: zero_less_mult_iff)
qed

lemma float_div_value:
  "float_value (float_div a b)
   = float_value (round32 (fst a) (fst b)) * pow2 (snd a - snd b)"
proof -
  obtain m ex where r: "round32 (fst a) (fst b) = (m, ex)" by (cases "round32 (fst a) (fst b)")
  have "pow2 (ex + snd a - snd b) = pow2 ex * pow2 (snd a - snd b)"
    unfolding pow2_add [symmetric] by (simp add: algebra_simps)
  then show ?thesis by (simp add: float_div_def r float_value_def)
qed

lemma float_div_error:
  assumes "0 < fst a" "0 < fst b"
  shows "\<bar>float_value (float_div a b) - float_value a / float_value b\<bar>
         \<le> float_value a / float_value b / 2 ^ 24"
proof -
  define s where "s = pow2 (snd a - snd b)"
  define y :: rat where "y = of_nat (fst a) / of_nat (fst b)"
  define v where "v = float_value (round32 (fst a) (fst b))"
  have s: "0 \<le> s" using pow2_pos [of "snd a - snd b"] by (simp add: s_def)
  have q: "float_value a / float_value b = y * s"
    by (simp add: float_value_def pow2_diff s_def y_def)
  have e: "\<bar>v - y\<bar> \<le> y / 2 ^ 24"
    unfolding v_def y_def by (rule round32_error [OF assms])
  have "float_value (float_div a b) - float_value a / float_value b = (v - y) * s"
    unfolding float_div_value q v_def s_def by (simp add: algebra_simps)
  then have "\<bar>float_value (float_div a b) - float_value a / float_value b\<bar> = \<bar>v - y\<bar> * s"
    using s by (simp add: abs_mult)
  also have "\<dots> \<le> y / 2 ^ 24 * s" by (rule mult_right_mono [OF e s])
  also have "\<dots> = float_value a / float_value b / 2 ^ 24" unfolding q by simp
  finally show ?thesis .
qed

lemma float_quotient_zero:
  "0 < d \<Longrightarrow> float_quotient 0 d = Some 0"
  by (simp add: float_quotient_def float_of_nat_def float_div_def round32_def float_value_def)

lemma quotient_error_chain:
  fixes A B Q x z c :: rat
  assumes x: "0 < x" and z: "0 < z" and c: "0 < c" "c \<le> 1 / 5"
    and A: "\<bar>A - x\<bar> \<le> x * c" and B: "\<bar>B - z\<bar> \<le> z * c"
    and Q: "\<bar>Q - A / B\<bar> \<le> A / B * c"
  shows "x / z * (1 - 4 * c) \<le> Q \<and> Q \<le> x / z * (1 + 4 * c)"
proof -
  have c1: "0 < 1 - c" "0 < 1 + c" using c by simp_all
  have xa: "x * (1 - c) = x - x * c" "x * (1 + c) = x + x * c" by (simp_all add: algebra_simps)
  have za: "z * (1 - c) = z - z * c" "z * (1 + c) = z + z * c" by (simp_all add: algebra_simps)
  have A1: "x * (1 - c) \<le> A" and A2: "A \<le> x * (1 + c)" unfolding xa using A by linarith+
  have B1: "z * (1 - c) \<le> B" and B2: "B \<le> z * (1 + c)" unfolding za using B by linarith+
  have xl: "0 < x * (1 - c)" and zl: "0 < z * (1 - c)" using x z c1 by simp_all
  have Apos: "0 < A" using xl A1 by linarith
  have Bpos: "0 < B" using zl B1 by linarith
  define y where "y = A / B"
  have y: "0 < y" using Apos Bpos by (simp add: y_def)
  have ya: "y * (1 - c) = y - y * c" "y * (1 + c) = y + y * c" by (simp_all add: algebra_simps)
  have Q1: "y * (1 - c) \<le> Q" and Q2: "Q \<le> y * (1 + c)"
    unfolding ya using Q unfolding y_def [symmetric] by linarith+
  have up: "y \<le> x * (1 + c) / (z * (1 - c))"
    unfolding y_def using Apos A2 zl B1 by (intro frac_le) simp_all
  have lo: "x * (1 - c) / (z * (1 + c)) \<le> y"
    unfolding y_def using xl A1 Bpos B2 by (intro frac_le) simp_all
  have k1: "(1 + c) * (1 + c) \<le> (1 + 4 * c) * (1 - c)"
  proof -
    have "(1 + 4 * c) * (1 - c) - (1 + c) * (1 + c) = c * (1 - 5 * c)"
      by (simp add: algebra_simps)
    moreover have "0 \<le> c * (1 - 5 * c)" using c by (intro mult_nonneg_nonneg) simp_all
    ultimately show ?thesis by linarith
  qed
  have k2: "(1 - 4 * c) * (1 + c) \<le> (1 - c) * (1 - c)"
  proof -
    have "(1 - c) * (1 - c) - (1 - 4 * c) * (1 + c) = c * (1 + 5 * c)"
      by (simp add: algebra_simps)
    moreover have "0 \<le> c * (1 + 5 * c)" using c by (intro mult_nonneg_nonneg) simp_all
    ultimately show ?thesis by linarith
  qed
  have xz: "0 \<le> x / z" using x z by simp
  have "Q \<le> x * (1 + c) / (z * (1 - c)) * (1 + c)"
    using Q2 mult_right_mono [OF up, of "1 + c"] c1 by linarith
  also have "\<dots> = x / z * ((1 + c) * (1 + c) / (1 - c))" by simp
  also have "\<dots> \<le> x / z * (1 + 4 * c)"
  proof (rule mult_left_mono [OF _ xz])
    show "(1 + c) * (1 + c) / (1 - c) \<le> 1 + 4 * c"
      using k1 c1 by (simp add: pos_divide_le_eq)
  qed
  finally have U: "Q \<le> x / z * (1 + 4 * c)" .
  have "x / z * (1 - 4 * c) \<le> x / z * ((1 - c) * (1 - c) / (1 + c))"
  proof (rule mult_left_mono [OF _ xz])
    show "1 - 4 * c \<le> (1 - c) * (1 - c) / (1 + c)"
      using k2 c1 by (simp add: pos_le_divide_eq)
  qed
  also have "\<dots> = x * (1 - c) / (z * (1 + c)) * (1 - c)" by simp
  also have "\<dots> \<le> y * (1 - c)"
    using mult_right_mono [OF lo, of "1 - c"] c1 by linarith
  also have "\<dots> \<le> Q" by (rule Q1)
  finally have L: "x / z * (1 - 4 * c) \<le> Q" .
  show ?thesis using L U by simp
qed

lemma float_quotient_bounds:
  assumes "0 < n" "0 < d"
  shows "\<exists>r. float_quotient n d = Some r
            \<and> of_nat n / of_nat d * (1 - 1 / 2 ^ 22) \<le> r
            \<and> r \<le> of_nat n / of_nat d * (1 + 1 / 2 ^ 22)"
proof -
  define A where "A = float_value (float_of_nat n)"
  define B where "B = float_value (float_of_nat d)"
  define Q where "Q = float_value (float_div (float_of_nat n) (float_of_nat d))"
  define x :: rat where "x = of_nat n"
  define z :: rat where "z = of_nat d"
  define c :: rat where "c = 1 / 2 ^ 24"
  have c: "0 < c" "c \<le> 1 / 5" "4 * c = 1 / 2 ^ 22" by (simp_all add: c_def)
  have x: "0 < x" and z: "0 < z" using assms by (simp_all add: x_def z_def)
  have a: "\<bar>A - x\<bar> \<le> x * c"
    using float_of_nat_error [OF assms(1)] by (simp add: A_def x_def c_def)
  have b: "\<bar>B - z\<bar> \<le> z * c"
    using float_of_nat_error [OF assms(2)] by (simp add: B_def z_def c_def)
  have q: "\<bar>Q - A / B\<bar> \<le> A / B * c"
    using float_div_error [OF float_of_nat_pos [OF assms(1)] float_of_nat_pos [OF assms(2)]]
    by (simp add: Q_def A_def B_def c_def)
  have "x / z * (1 - 4 * c) \<le> Q \<and> Q \<le> x / z * (1 + 4 * c)"
    by (rule quotient_error_chain [OF x z c(1,2) a b q])
  then have "x / z * (1 - 1 / 2 ^ 22) \<le> Q \<and> Q \<le> x / z * (1 + 1 / 2 ^ 22)"
    unfolding c(3) .
  moreover have "float_quotient n d = Some Q" using assms(2) by (simp add: float_quotient_def Q_def)
  ultimately show ?thesis unfolding x_def z_def by blast
qed

lemma float_quotient_below:
  assumes "0 < d" "of_nat n / of_nat d * (1 + 1 / 2 ^ 22) < T"
  shows "\<exists>r. float_quotient n d = Some r \<and> r < T"
proof (cases "n = 0")
  case True
  then show ?thesis using assms float_quotient_zero [OF assms(1)] by simp
next
  case False
  then obtain r where "float_quotient n d = Some r"
    "r \<le> of_nat n / of_nat d * (1 + 1 / 2 ^ 22)"
    using float_quotient_bounds [of n d] assms(1) by auto
  then show ?thesis using assms(2) by auto
qed

subsection \<open>The test in a gap\<close>

lemma longestPrefixLoop_ge: "n \<le> longestPrefixLoop sols m n"
proof (induction sols m n rule: longestPrefixLoop.induct)
  case (1 solutions min_len longestPrefix)
  show ?case
  proof (cases "longestPrefix < min_len
         \<and> list_all (\<lambda>sol. sol ! longestPrefix = hd solutions ! longestPrefix) solutions")
    case True
    then have "Suc longestPrefix \<le> longestPrefixLoop solutions min_len (Suc longestPrefix)"
      using 1 by simp
    then show ?thesis using True by (subst longestPrefixLoop.simps) simp
  next
    case False
    then show ?thesis by (subst longestPrefixLoop.simps) auto
  qed
qed

lemma min_len_pos:
  "0 < a \<Longrightarrow> \<forall>sol \<in> set sols. sol \<noteq> [] \<Longrightarrow> 0 < fold (\<lambda>sol m. min m (length sol)) sols a"
  by (induction sols arbitrary: a) auto

text \<open>Every candidate starts with the source, so the common prefix is not empty.\<close>

lemma candidates_prefix:
  assumes "candidates e c \<noteq> []"
  shows "0 < longestPrefixLoop (candidates e c)
               (fold (\<lambda>sol m. min m (length sol)) (tl (candidates e c))
                  (length (hd (candidates e c)))) 0"
proof -
  let ?sols = "candidates e c"
  let ?m = "fold (\<lambda>sol m. min m (length sol)) (tl ?sols) (length (hd ?sols))"
  have all: "\<forall>sol \<in> set ?sols. sol \<noteq> [] \<and> sol ! 0 = source c"
    by (auto simp: candidates_def)
  have hd_in: "hd ?sols \<in> set ?sols" using assms by simp
  have tl_in: "\<forall>sol \<in> set (tl ?sols). sol \<noteq> []"
    using all assms by (metis list.set_sel(2))
  have m: "0 < ?m" using min_len_pos [of "length (hd ?sols)" "tl ?sols"] all hd_in tl_in by simp
  have la: "list_all (\<lambda>sol. sol ! 0 = hd ?sols ! 0) ?sols"
    using all hd_in by (simp add: list_all_iff)
  have "longestPrefixLoop ?sols ?m 0 = longestPrefixLoop ?sols ?m (Suc 0)"
    using m la by (subst longestPrefixLoop.simps) simp
  then show ?thesis using longestPrefixLoop_ge [of "Suc 0" ?sols ?m] by simp
qed

lemma candidates_pair:
  assumes "candidates e c = [p1, p2]"
  shows "hd p1 = hd p2"
  using assms by (auto simp: candidates_def map_eq_Cons_conv)

lemma interior_length: "butlast (tl p) \<noteq> [] \<Longrightarrow> 1 < length p"
  by (cases p) (auto simp: Suc_lessI)

lemma search_frame:
  "same_but_warnings (w\<lparr>events := events w @ [search_call e c]\<rparr>) w' \<Longrightarrow>
   stats w' = stats w \<and> fasta w' = fasta w \<and> g_newVertices w' = g_newVertices w
   \<and> filter is_align_call (events w') = filter is_align_call (events w)"
  by (simp add: same_but_warnings_def search_call_def)

lemma fillGap_pair_prefilter:
  assumes c: "candidates e c = [p1, p2]" and v: "visited e c < opt_maxCost e"
    and nb: "2 \<le> opt_numBranches e" and l: "last p1 = last p2"
    and i1: "butlast (tl p1) \<noteq> []" and i2: "butlast (tl p2) \<noteq> []"
    and m1: "mergePath e (butlast (tl p1)) (w\<lparr>events := events w @ [search_call e c]\<rparr>)
             = Inr (f, w1)"
    and m2: "mergePath e (butlast (tl p2)) w1 = Inr (s, w2)"
    and ne: "f \<noteq> s"
    and q: "float_quotient (min (length f) (length s)) (max (length f) (length s)) = Some r"
    and r: "r < opt_identity e"
  shows "fillGap e c seen w
          = Inr ([], seen, w2\<lparr>stats := (stats w2)\<lparr>notMerged := notMerged (stats w2) + 1\<rparr>\<rparr>)
        \<and> stats w2 = stats w \<and> fasta w2 = fasta w \<and> g_newVertices w2 = g_newVertices w
        \<and> filter is_align_call (events w2) = filter is_align_call (events w)"
proof -
  let ?w0 = "w\<lparr>events := events w @ [search_call e c]\<rparr>"
  have rb: "ratio_below e (min (length f) (length s)) (max (length f) (length s))"
    using q r by (simp add: ratio_below_def)
  have "alignPair e [p1, p2] ?w0 = Inr ([], w2)"
    using alignPair_general [OF interior_length [OF i1] interior_length [OF i2]
            candidates_pair [OF c] l i1 i2 m1 m2] ne rb by simp
  then have al: "align e (candidates e c) ?w0 = Inr ([], w2)"
    unfolding c by (simp add: align_def)
  have fill: "fillGap e c seen w
          = Inr ([], seen, w2\<lparr>stats := (stats w2)\<lparr>notMerged := notMerged (stats w2) + 1\<rparr>\<rparr>)"
    using v nb al c by (simp add: fillGap_unfold Let_def)
  have "same_but_warnings ?w0 w2"
    using mergePath_frame [OF m1] mergePath_frame [OF m2] by (rule same_but_warnings_trans)
  then show ?thesis using fill search_frame by blast
qed

lemma fillGap_multi_prefilter:
  assumes n: "2 < length (candidates e c)" and nb: "length (candidates e c) \<le> opt_numBranches e"
    and v: "visited e c < opt_maxCost e"
    and lp: "lp = longestPrefixLoop (candidates e c)
                  (fold (\<lambda>sol m. min m (length sol)) (tl (candidates e c))
                     (length (hd (candidates e c)))) 0"
    and ls: "ls = longestSuffixLoop (candidates e c)
                  (fold (\<lambda>sol m. min m (length sol)) (tl (candidates e c))
                     (length (hd (candidates e c))) - lp) 0"
    and pos: "0 < ls"
    and amb: "ambSeqsLoop e (candidates e c) lp ls (candidates e c) [] 0
                (w\<lparr>events := events w @ [search_call e c]\<rparr>) = Inr (amb_seqs, coverage, wm)"
    and q: "float_quotient (min_element (map length amb_seqs))
                (max_element (map length amb_seqs)) = Some r"
    and r: "r < opt_identity e"
  shows "fillGap e c seen w
          = Inr ([], seen, wm\<lparr>stats := (stats wm)\<lparr>notMerged := notMerged (stats wm) + 1\<rparr>\<rparr>)
        \<and> stats wm = stats w \<and> fasta wm = fasta w \<and> g_newVertices wm = g_newVertices w
        \<and> filter is_align_call (events wm) = filter is_align_call (events w)"
proof -
  let ?w0 = "w\<lparr>events := events w @ [search_call e c]\<rparr>"
  have ne: "candidates e c \<noteq> []" using n by auto
  have lpp: "0 < lp" unfolding lp by (rule candidates_prefix [OF ne])
  have rb: "ratio_below e (min_element (map length amb_seqs))
              (max_element (map length amb_seqs))"
    using q r by (simp add: ratio_below_def)
  have "alignMulti e (candidates e c) ?w0 = Inr ([], wm)"
    using lpp pos amb rb unfolding alignMulti_def lp ls by (simp add: Let_def)
  then have al: "align e (candidates e c) ?w0 = Inr ([], wm)"
    using n by (simp add: align_def)
  have fill: "fillGap e c seen w
          = Inr ([], seen, wm\<lparr>stats := (stats wm)\<lparr>notMerged := notMerged (stats wm) + 1\<rparr>\<rparr>)"
    using v nb al n ne by (simp add: fillGap_unfold Let_def)
  have "same_but_warnings ?w0 wm" using ambSeqsLoop_frame [OF amb] .
  then show ?thesis using fill search_frame by blast
qed

text \<open>The float \<^verbatim>\<open>0.9\<close>, and the quotient of the lengths 1710008 and 1900009.\<close>

lemma round32_9_10: "float_value (round32 9 10) = 7549747 / 8388608"
proof -
  have "round32 9 10 = (15099494, - 24)" by (simp add: round_defs)
  then show ?thesis by (simp add: float_value_def pow2_def)
qed

lemma float_of_nat_1710008: "float_of_nat 1710008 = (13680064, - 3)"
  by (simp add: float_of_nat_def round_defs)

lemma float_of_nat_1900009: "float_of_nat 1900009 = (15200072, - 3)"
  by (simp add: float_of_nat_def round_defs)

lemma float_div_long: "float_div (13680064, - 3) (15200072, - 3) = (15099494, - 24)"
  by (simp add: float_div_def round_defs)

lemma float_quotient_long: "float_quotient 1710008 1900009 = Some (7549747 / 8388608)"
  by (simp add: float_quotient_def float_of_nat_1710008 float_of_nat_1900009 float_div_long
        float_value_def pow2_def)

text \<open>
  The quotient of the lengths 4 and 5 is the float \<^verbatim>\<open>0.8\<close> itself, so that under this
  threshold the test does not hold for them.
\<close>

lemma float_of_nat_5: "float_of_nat 5 = (10485760, - 21)"
  by (simp add: float_of_nat_def round_defs)

lemma float_div_4_5: "float_div (8388608, - 21) (10485760, - 21) = (13421773, - 24)"
  by (simp add: float_div_def round_defs)

lemma round32_4_5: "round32 4 5 = (13421773, - 24)"
  by (simp add: round_defs)

lemma float_quotient_4_5: "float_quotient 4 5 = Some (float_value (round32 4 5))"
  by (simp add: float_quotient_def float_of_nat_4 float_of_nat_5 float_div_4_5 round32_4_5)

lemma example_mergePath_single:
  "i < 7 \<Longrightarrow> mergePath (example_env example_search) [Contig i False] w
     = Inr (g_contigs (example_env example_search) ! i, w)"
  by (simp add: mergePath_def getSequence_def example_env_def)

lemma fillGap_merged:
  assumes "visited e c < opt_maxCost e" "length (candidates e c) \<le> opt_numBranches e"
    and "1 < length (candidates e c)"
    and "align e (candidates e c) (w\<lparr>events := events w @ [search_call e c]\<rparr>)
         = Inr (cons, w1)"
    and "cons \<noteq> []"
  shows "fillGap e c seen w
         = Inr (cons, markSeenPaths seen (candidates e c) True,
                w1\<lparr>stats := (stats w1)\<lparr>numMerged := numMerged (stats w1) + 1\<rparr>\<rparr>)"
  using assms by (auto simp: fillGap_unfold Let_def)

text \<open>
  Claim C7, as amended. The test is made on the single-precision quotient of the two
  lengths: both are converted to \<^verbatim>\<open>float\<close>, the division is rounded, and the result is
  compared with the threshold that \<^verbatim>\<open>opt::identity\<close> holds. Take a gap that reaches
  the alignment: its search stays within the budget and returns no more candidates than
  the limit on branches. With two candidates that end in the same node, whose interiors
  are not empty and merge to two different sequences, when the quotient of the shorter
  by the longer merged length is below the threshold, \<^verbatim>\<open>fillGap\<close> returns the empty
  path and counts the gap as not merged, and the pairwise alignment is not called and
  no contig is written. With more than two candidates that have a common suffix and
  whose sequences of the ambiguous region are merged without error, the same holds for
  the quotient of the shortest by the longest of these sequences, and the multiple
  alignment is not called. The quotient differs from the exact ratio by at
  most the relative error \<open>1 / 2 ^ 22\<close>: the test holds when the exact ratio times
  \<open>1 + 1 / 2 ^ 22\<close> is below the threshold, and when the test holds the exact ratio
  times \<open>1 - 1 / 2 ^ 22\<close> is below the threshold. In particular two candidates of
  merged lengths 4 and 10 are rejected in this way under the default threshold, the
  float nearest to 0.9.
\<close>

theorem length_ratio_prefilter:
  "(candidates e c = [p1, p2] \<and> visited e c < opt_maxCost e \<and> 2 \<le> opt_numBranches e
      \<and> last p1 = last p2 \<and> butlast (tl p1) \<noteq> [] \<and> butlast (tl p2) \<noteq> []
      \<and> mergePath e (butlast (tl p1)) (w\<lparr>events := events w @ [search_call e c]\<rparr>)
          = Inr (f, w1)
      \<and> mergePath e (butlast (tl p2)) w1 = Inr (s, w2)
      \<and> f \<noteq> s
      \<and> float_quotient (min (length f) (length s)) (max (length f) (length s)) = Some r
      \<and> r < opt_identity e
    \<longrightarrow> fillGap e c seen w
          = Inr ([], seen, w2\<lparr>stats := (stats w2)\<lparr>notMerged := notMerged (stats w2) + 1\<rparr>\<rparr>)
        \<and> stats w2 = stats w \<and> fasta w2 = fasta w \<and> g_newVertices w2 = g_newVertices w
        \<and> filter is_align_call (events w2) = filter is_align_call (events w))
 \<and> (2 < length (candidates e' c') \<and> length (candidates e' c') \<le> opt_numBranches e'
      \<and> visited e' c' < opt_maxCost e'
      \<and> lp = longestPrefixLoop (candidates e' c')
                (fold (\<lambda>sol m. min m (length sol)) (tl (candidates e' c'))
                   (length (hd (candidates e' c')))) 0
      \<and> ls = longestSuffixLoop (candidates e' c')
                (fold (\<lambda>sol m. min m (length sol)) (tl (candidates e' c'))
                   (length (hd (candidates e' c'))) - lp) 0
      \<and> 0 < ls
      \<and> ambSeqsLoop e' (candidates e' c') lp ls (candidates e' c') [] 0
           (w'\<lparr>events := events w' @ [search_call e' c']\<rparr>) = Inr (amb_seqs, coverage, wm)
      \<and> float_quotient (min_element (map length amb_seqs))
           (max_element (map length amb_seqs)) = Some r'
      \<and> r' < opt_identity e'
    \<longrightarrow> fillGap e' c' seen' w'
          = Inr ([], seen', wm\<lparr>stats := (stats wm)\<lparr>notMerged := notMerged (stats wm) + 1\<rparr>\<rparr>)
        \<and> stats wm = stats w' \<and> fasta wm = fasta w' \<and> g_newVertices wm = g_newVertices w'
        \<and> filter is_align_call (events wm) = filter is_align_call (events w'))
 \<and> (0 < den \<and> of_nat num / of_nat den * (1 + 1 / 2 ^ 22) < t
    \<longrightarrow> (\<exists>q. float_quotient num den = Some q \<and> q < t))
 \<and> (float_quotient num' den' = Some q' \<and> q' < t'
    \<longrightarrow> of_nat num' / of_nat den' * (1 - 1 / 2 ^ 22) < t')
 \<and> (candidates e c = [p1, p2] \<and> visited e c < opt_maxCost e \<and> 2 \<le> opt_numBranches e
      \<and> last p1 = last p2 \<and> butlast (tl p1) \<noteq> [] \<and> butlast (tl p2) \<noteq> []
      \<and> mergePath e (butlast (tl p1)) (w\<lparr>events := events w @ [search_call e c]\<rparr>)
          = Inr (f, w1)
      \<and> mergePath e (butlast (tl p2)) w1 = Inr (s, w2)
      \<and> min (length f) (length s) = 4 \<and> max (length f) (length s) = 10
      \<and> opt_identity e = float_value (round32 9 10)
    \<longrightarrow> fillGap e c seen w
          = Inr ([], seen, w2\<lparr>stats := (stats w2)\<lparr>notMerged := notMerged (stats w2) + 1\<rparr>\<rparr>)
        \<and> stats w2 = stats w \<and> fasta w2 = fasta w \<and> g_newVertices w2 = g_newVertices w
        \<and> filter is_align_call (events w2) = filter is_align_call (events w))"
proof (intro conjI impI)
  assume h: "candidates e c = [p1, p2] \<and> visited e c < opt_maxCost e \<and> 2 \<le> opt_numBranches e
      \<and> last p1 = last p2 \<and> butlast (tl p1) \<noteq> [] \<and> butlast (tl p2) \<noteq> []
      \<and> mergePath e (butlast (tl p1)) (w\<lparr>events := events w @ [search_call e c]\<rparr>)
          = Inr (f, w1)
      \<and> mergePath e (butlast (tl p2)) w1 = Inr (s, w2)
      \<and> f \<noteq> s
      \<and> float_quotient (min (length f) (length s)) (max (length f) (length s)) = Some r
      \<and> r < opt_identity e"
  have g: "fillGap e c seen w
          = Inr ([], seen, w2\<lparr>stats := (stats w2)\<lparr>notMerged := notMerged (stats w2) + 1\<rparr>\<rparr>)
        \<and> stats w2 = stats w \<and> fasta w2 = fasta w \<and> g_newVertices w2 = g_newVertices w
        \<and> filter is_align_call (events w2) = filter is_align_call (events w)"
    using h fillGap_pair_prefilter [where e = e and c = c and ?p1.0 = p1 and ?p2.0 = p2
              and w = w and f = f and ?w1.0 = w1 and s = s and ?w2.0 = w2 and r = r
              and seen = seen]
    by blast
  show "fillGap e c seen w
          = Inr ([], seen, w2\<lparr>stats := (stats w2)\<lparr>notMerged := notMerged (stats w2) + 1\<rparr>\<rparr>)"
    and "stats w2 = stats w" and "fasta w2 = fasta w" and "g_newVertices w2 = g_newVertices w"
    and "filter is_align_call (events w2) = filter is_align_call (events w)"
    using g by simp_all
next
  assume h: "2 < length (candidates e' c') \<and> length (candidates e' c') \<le> opt_numBranches e'
      \<and> visited e' c' < opt_maxCost e'
      \<and> lp = longestPrefixLoop (candidates e' c')
                (fold (\<lambda>sol m. min m (length sol)) (tl (candidates e' c'))
                   (length (hd (candidates e' c')))) 0
      \<and> ls = longestSuffixLoop (candidates e' c')
                (fold (\<lambda>sol m. min m (length sol)) (tl (candidates e' c'))
                   (length (hd (candidates e' c'))) - lp) 0
      \<and> 0 < ls
      \<and> ambSeqsLoop e' (candidates e' c') lp ls (candidates e' c') [] 0
           (w'\<lparr>events := events w' @ [search_call e' c']\<rparr>) = Inr (amb_seqs, coverage, wm)
      \<and> float_quotient (min_element (map length amb_seqs))
           (max_element (map length amb_seqs)) = Some r'
      \<and> r' < opt_identity e'"
  have g: "fillGap e' c' seen' w'
          = Inr ([], seen', wm\<lparr>stats := (stats wm)\<lparr>notMerged := notMerged (stats wm) + 1\<rparr>\<rparr>)
        \<and> stats wm = stats w' \<and> fasta wm = fasta w' \<and> g_newVertices wm = g_newVertices w'
        \<and> filter is_align_call (events wm) = filter is_align_call (events w')"
    using h fillGap_multi_prefilter [where e = e' and c = c' and lp = lp and ls = ls
              and w = w' and amb_seqs = amb_seqs and coverage = coverage and wm = wm
              and r = r' and seen = seen']
    by blast
  show "fillGap e' c' seen' w'
          = Inr ([], seen', wm\<lparr>stats := (stats wm)\<lparr>notMerged := notMerged (stats wm) + 1\<rparr>\<rparr>)"
    and "stats wm = stats w'" and "fasta wm = fasta w'"
    and "g_newVertices wm = g_newVertices w'"
    and "filter is_align_call (events wm) = filter is_align_call (events w')"
    using g by simp_all
next
  assume "0 < den \<and> of_nat num / of_nat den * (1 + 1 / 2 ^ 22) < t"
  then show "\<exists>q. float_quotient num den = Some q \<and> q < t"
    using float_quotient_below [of den num t] by simp
next
  assume h: "float_quotient num' den' = Some q' \<and> q' < t'"
  then have d: "0 < den'" by (auto simp: float_quotient_def split: if_splits)
  show "of_nat num' / of_nat den' * (1 - 1 / 2 ^ 22) < t'"
  proof (cases "num' = 0")
    case True
    then show ?thesis using h float_quotient_zero [OF d] by simp
  next
    case False
    then obtain q where "float_quotient num' den' = Some q"
      "of_nat num' / of_nat den' * (1 - 1 / 2 ^ 22) \<le> q"
      using float_quotient_bounds [of num' den'] d by auto
    then show ?thesis using h by auto
  qed
next
  assume h: "candidates e c = [p1, p2] \<and> visited e c < opt_maxCost e \<and> 2 \<le> opt_numBranches e
      \<and> last p1 = last p2 \<and> butlast (tl p1) \<noteq> [] \<and> butlast (tl p2) \<noteq> []
      \<and> mergePath e (butlast (tl p1)) (w\<lparr>events := events w @ [search_call e c]\<rparr>)
          = Inr (f, w1)
      \<and> mergePath e (butlast (tl p2)) w1 = Inr (s, w2)
      \<and> min (length f) (length s) = 4 \<and> max (length f) (length s) = 10
      \<and> opt_identity e = float_value (round32 9 10)"
  then have ne: "f \<noteq> s" by auto
  have q: "float_quotient (min (length f) (length s)) (max (length f) (length s))
           = Some (13421773 / 33554432)"
    using h float_quotient_4_10 by simp
  have r: "13421773 / 33554432 < opt_identity e" using h round32_9_10 by simp
  have g: "fillGap e c seen w
          = Inr ([], seen, w2\<lparr>stats := (stats w2)\<lparr>notMerged := notMerged (stats w2) + 1\<rparr>\<rparr>)
        \<and> stats w2 = stats w \<and> fasta w2 = fasta w \<and> g_newVertices w2 = g_newVertices w
        \<and> filter is_align_call (events w2) = filter is_align_call (events w)"
    using h ne q r
      fillGap_pair_prefilter [where e = e and c = c and ?p1.0 = p1 and ?p2.0 = p2
        and w = w and f = f and ?w1.0 = w1 and s = s and ?w2.0 = w2
        and r = "13421773 / 33554432" and seen = seen]
    by blast
  show "fillGap e c seen w
          = Inr ([], seen, w2\<lparr>stats := (stats w2)\<lparr>notMerged := notMerged (stats w2) + 1\<rparr>\<rparr>)"
    and "stats w2 = stats w" and "fasta w2 = fasta w" and "g_newVertices w2 = g_newVertices w"
    and "filter is_align_call (events w2) = filter is_align_call (events w)"
    using g by simp_all
qed

theorem length_ratio_prefilter_witness:
  "candidates (example_env example_search)
        \<lparr>source = Contig 0 False, dest = Contig 2 False, dist = - 5\<rparr>
     = [[Contig 0 False, Contig 1 False, Contig 2 False],
        [Contig 0 False, Contig 3 False, Contig 2 False]]
   \<and> length (g_contigs (example_env example_search) ! 1) = 10
   \<and> length (g_contigs (example_env example_search) ! 3) = 4
   \<and> float_quotient 4 10 = Some (13421773 / 33554432)
   \<and> (13421773 / 33554432 :: rat) < opt_identity (example_env example_search)
   \<and> fillGap (example_env example_search)
        \<lparr>source = Contig 0 False, dest = Contig 2 False, dist = - 5\<rparr> [] example_world
     = Inr ([], [],
            example_world
              \<lparr>events := [SearchCall (Contig 0 False) [(Contig 2 False, 1)]],
                stats := (stats example_world)\<lparr>notMerged := 1\<rparr>\<rparr>)
   \<and> fillGap (example_env example_search)
        \<lparr>source = Contig 3 False, dest = Contig 2 False, dist = - 5\<rparr> [] example_world
     = Inr ([], [],
            example_world
              \<lparr>events := [SearchCall (Contig 3 False) [(Contig 2 False, 1)]],
                stats := (stats example_world)\<lparr>notMerged := 1\<rparr>\<rparr>)
   \<and> (\<exists>q. float_quotient 4 10 = Some q \<and> q < opt_identity (example_env example_search))
   \<and> (4 :: rat) / 10 * (1 - 1 / 2 ^ 22) < opt_identity (example_env example_search)"
proof -
  let ?e = "example_env example_search"
  let ?c = "\<lparr>source = Contig 0 False, dest = Contig 2 False, dist = - 5\<rparr>"
  let ?c3 = "\<lparr>source = Contig 3 False, dest = Contig 2 False, dist = - 5\<rparr>"
  let ?p1 = "[Contig 0 False, Contig 1 False, Contig 2 False]"
  let ?p2 = "[Contig 0 False, Contig 3 False, Contig 2 False]"
  let ?sols = "[[Contig 3 False, Contig 1 False, Contig 2 False],
       [Contig 3 False, Contig 5 False, Contig 2 False],
       [Contig 3 False, Contig 6 False, Contig 2 False]]"
  let ?amb = "[''TTACGTACGG'', ''TTCG'', ''TTACGTTCGG'']"
  let ?w0 = "example_world\<lparr>events := events example_world @ [search_call ?e ?c]\<rparr>"
  let ?w3 = "example_world\<lparr>events := events example_world @ [search_call ?e ?c3]\<rparr>"
  let ?q = "13421773 / 33554432 :: rat"
  note T = length_ratio_prefilter [where e = ?e and c = ?c and ?p1.0 = ?p1 and ?p2.0 = ?p2
      and w = example_world and f = "''TTACGTACGG''" and ?w1.0 = ?w0 and s = "''TTGG''"
      and ?w2.0 = ?w0 and r = ?q and seen = "[]"
      and e' = ?e and c' = ?c3 and lp = 1 and ls = 1 and w' = example_world
      and amb_seqs = ?amb and coverage = 3 and wm = ?w3 and r' = ?q and seen' = "[]"
      and den = 10 and num = 4 and t = "opt_identity ?e"
      and num' = 4 and den' = 10 and q' = ?q and t' = "opt_identity ?e"]
  have idt: "opt_identity ?e = 7549747 / 8388608" by (simp add: example_env_def)
  have lt: "?q < opt_identity ?e" unfolding idt by simp
  have cand: "candidates ?e ?c = [?p1, ?p2]"
    by (simp add: candidates_def example_env_def example_search_def)
  have vis: "visited ?e ?c < opt_maxCost ?e"
    by (simp add: visited_def example_env_def example_search_def)
  have nb: "opt_numBranches ?e = 4" by (simp add: example_env_def)
  have m1: "mergePath ?e (butlast (tl ?p1)) ?w0 = Inr (''TTACGTACGG'', ?w0)"
    using example_mergePath_single [of 1 ?w0] by (simp add: example_env_def)
  have m2: "mergePath ?e (butlast (tl ?p2)) ?w0 = Inr (''TTGG'', ?w0)"
    using example_mergePath_single [of 3 ?w0] by (simp add: example_env_def)
  have fq: "float_quotient (min (length ''TTACGTACGG'') (length ''TTGG''))
              (max (length ''TTACGTACGG'') (length ''TTGG'')) = Some ?q"
    by (simp add: float_quotient_Suc_4_10)
  have pair: "fillGap ?e ?c [] example_world
     = Inr ([], [], ?w0\<lparr>stats := (stats ?w0)\<lparr>notMerged := notMerged (stats ?w0) + 1\<rparr>\<rparr>)"
    using T [THEN conjunct1] cand vis nb m1 m2 fq lt by simp
  have pair': "fillGap ?e ?c [] example_world
     = Inr ([], [],
            example_world
              \<lparr>events := [SearchCall (Contig 0 False) [(Contig 2 False, 1)]],
                stats := (stats example_world)\<lparr>notMerged := 1\<rparr>\<rparr>)"
    unfolding pair by (simp add: search_call_def example_world_def example_env_def)
  have mm: "min (length ''TTACGTACGG'') (length ''TTGG'') = 4
          \<and> max (length ''TTACGTACGG'') (length ''TTGG'') = 10" by simp
  have i9: "opt_identity ?e = float_value (round32 9 10)" unfolding idt round32_9_10 ..
  have inst: "fillGap ?e ?c [] example_world
     = Inr ([], [], ?w0\<lparr>stats := (stats ?w0)\<lparr>notMerged := notMerged (stats ?w0) + 1\<rparr>\<rparr>)"
    using T [THEN conjunct2, THEN conjunct2, THEN conjunct2, THEN conjunct2]
      cand vis nb m1 m2 mm i9 by simp
  have cand3: "candidates ?e ?c3 = ?sols"
    by (simp add: candidates_def example_env_def example_search_def)
  have vis3: "visited ?e ?c3 < opt_maxCost ?e"
    by (simp add: visited_def example_env_def example_search_def)
  have ml: "fold (\<lambda>sol m. min m (length sol)) (tl ?sols) (length (hd ?sols)) = 3" by simp
  have lp: "1 = longestPrefixLoop ?sols
               (fold (\<lambda>sol m. min m (length sol)) (tl ?sols) (length (hd ?sols))) 0"
    unfolding ml by (simp add: longestPrefixLoop.simps)
  have ls: "1 = longestSuffixLoop ?sols
               (fold (\<lambda>sol m. min m (length sol)) (tl ?sols) (length (hd ?sols)) - 1) 0"
    unfolding ml by (simp add: longestSuffixLoop.simps)
  have amb: "ambSeqsLoop ?e ?sols 1 1 ?sols [] 0 ?w3 = Inr (?amb, 3, ?w3)"
    using example_mergePath_single [of 1 ?w3]
      example_mergePath_single [of 5 ?w3] example_mergePath_single [of 6 ?w3]
    by (simp add: calculatePathCoverage_def example_env_def)
  have fq3: "float_quotient (min_element (map length ?amb)) (max_element (map length ?amb))
             = Some ?q"
    by (simp add: min_element_def max_element_def float_quotient_Suc_4_10)
  have multi: "fillGap ?e ?c3 [] example_world
     = Inr ([], [], ?w3\<lparr>stats := (stats ?w3)\<lparr>notMerged := notMerged (stats ?w3) + 1\<rparr>\<rparr>)"
    using T [THEN conjunct2, THEN conjunct1] vis3 nb lp ls amb fq3 lt
    unfolding cand3 by simp
  have multi': "fillGap ?e ?c3 [] example_world
     = Inr ([], [],
            example_world
              \<lparr>events := [SearchCall (Contig 3 False) [(Contig 2 False, 1)]],
                stats := (stats example_world)\<lparr>notMerged := 1\<rparr>\<rparr>)"
    unfolding multi by (simp add: search_call_def example_world_def example_env_def)
  have margin: "(0::nat) < 10 \<and> of_nat 4 / of_nat 10 * (1 + 1 / 2 ^ 22) < opt_identity ?e"
    unfolding idt by simp
  have below: "\<exists>q. float_quotient 4 10 = Some q \<and> q < opt_identity ?e"
    using T [THEN conjunct2, THEN conjunct2, THEN conjunct1] margin by blast
  have "of_nat 4 / of_nat 10 * (1 - 1 / 2 ^ 22) < opt_identity ?e"
    using T [THEN conjunct2, THEN conjunct2, THEN conjunct2, THEN conjunct1]
      float_quotient_4_10 lt by blast
  then have exact: "(4 :: rat) / 10 * (1 - 1 / 2 ^ 22) < opt_identity ?e" by simp
  have l1: "length (g_contigs ?e ! 1) = 10" and l3: "length (g_contigs ?e ! 3) = 4"
    by (simp_all add: example_env_def)
  show ?thesis
    using cand l1 l3 float_quotient_4_10 lt pair' multi' below exact inst by blast
qed

text \<open>
  Claim C7 as the spec states it fails, since the test is made on the rounded quotient:
  with the default threshold, two candidates of merged lengths 1710008 and 1900009 have
  a ratio below the threshold, but the quotient of the two floats is the threshold
  itself. The gap is not rejected: the pairwise alignment is called, and with the
  stand-in of the instance for it a contig is written and the gap is counted as merged.
\<close>

theorem length_ratio_prefilter_counterexample:
  "candidates example_long_env \<lparr>source = Contig 0 False, dest = Contig 2 False, dist = - 5\<rparr>
     = [[Contig 0 False, Contig 1 False, Contig 2 False],
        [Contig 0 False, Contig 3 False, Contig 2 False]]
   \<and> length (g_contigs example_long_env ! 1) = 1710008
   \<and> length (g_contigs example_long_env ! 3) = 1900009
   \<and> opt_identity example_long_env = float_value (round32 9 10)
   \<and> (1710008 :: rat) / 1900009 < opt_identity example_long_env
   \<and> float_quotient 1710008 1900009 = Some (opt_identity example_long_env)
   \<and> fillGap example_long_env
        \<lparr>source = Contig 0 False, dest = Contig 2 False, dist = - 5\<rparr>
        [False, False, False, False] example_world
     = Inr ([Contig 0 False, Contig 100 False, Contig 2 False],
            [True, True, True, True],
            \<lparr>stats = \<lparr>numAmbPaths = 0, numMerged = 1, numNoSolutions = 0,
                      numTooManySolutions = 0, tooComplex = 0, notMerged = 0\<rparr>,
             g_newVertices =
               [\<lparr>nv_t = Contig 0 False, nv_u = Contig 100 False, nv_v = Contig 2 False,
                 nv_vp = (1710008, 2)\<rparr>],
             fasta =
               [\<lparr>fa_id = 100, fa_length = 1710008, fa_coverage = 2,
                 fa_paths = [Some [Contig 1 False], Some [Contig 3 False]],
                 fa_seq = replicate 1710008 CHR ''A''\<rparr>],
             nextContigID = 101,
             events =
               [SearchCall (Contig 0 False) [(Contig 2 False, 1)],
                AlignGlobalCall (replicate 1710008 CHR ''A'')
                  (replicate 1900009 CHR ''A'')]\<rparr>)"
proof -
  let ?e = "example_long_env"
  let ?c = "\<lparr>source = Contig 0 False, dest = Contig 2 False, dist = - 5\<rparr>"
  let ?p1 = "[Contig 0 False, Contig 1 False, Contig 2 False]"
  let ?p2 = "[Contig 0 False, Contig 3 False, Contig 2 False]"
  let ?a = "replicate 1710008 CHR ''A''"
  let ?b = "replicate 1900009 CHR ''A''"
  let ?w0 = "example_world\<lparr>events := events example_world @ [search_call ?e ?c]\<rparr>"
  have idt: "opt_identity ?e = 7549747 / 8388608"
    by (simp add: example_long_env_def example_env_def)
  have i9: "opt_identity ?e = float_value (round32 9 10)" unfolding idt round32_9_10 ..
  have exact: "(1710008 :: rat) / 1900009 < opt_identity ?e" unfolding idt by simp
  have fq: "float_quotient 1710008 1900009 = Some (opt_identity ?e)"
    unfolding idt by (rule float_quotient_long)
  have cand: "candidates ?e ?c = [?p1, ?p2]"
    by (simp add: candidates_def example_long_env_def example_env_def example_search_def)
  have vis: "visited ?e ?c = 4"
    by (simp add: visited_def example_long_env_def example_env_def example_search_def)
  have opts: "opt_maxCost ?e = 100" "opt_numBranches ?e = 4"
    by (simp_all add: example_long_env_def example_env_def)
  have l1: "length (g_contigs ?e ! 1) = 1710008" and l3: "length (g_contigs ?e ! 3) = 1900009"
    by (simp_all add: example_long_env_def)
  have m1: "mergePath ?e (butlast (tl ?p1)) ?w0 = Inr (?a, ?w0)"
    by (simp add: mergePath_def getSequence_def example_long_env_def)
  have m2: "mergePath ?e (butlast (tl ?p2)) ?w0 = Inr (?b, ?w0)"
    by (simp add: mergePath_def getSequence_def example_long_env_def)
  have ne: "?a \<noteq> ?b" by simp
  have rb: "\<not> ratio_below ?e (min (length ?a) (length ?b)) (max (length ?a) (length ?b))"
    by (simp add: ratio_below_def float_quotient_long idt)
  have ag: "alignGlobal ?e ?a ?b = (1710008, 1900009, ?a)"
    by (simp add: example_long_env_def example_env_def)
  have rb2: "\<not> ratio_below ?e 1710008 1900009"
    by (simp add: ratio_below_def float_quotient_long idt)
  have cov: "calculatePathCoverage ?e (butlast (tl ?p1))
             + calculatePathCoverage ?e (butlast (tl ?p2)) = 2"
    by (simp add: calculatePathCoverage_def example_long_env_def example_env_def)
  have ap: "alignPair ?e [?p1, ?p2] ?w0 =
      (case outputNewContig [?p1, ?p2] 1 1 ?a 2
              (?w0\<lparr>events := events ?w0 @ [AlignGlobalCall ?a ?b]\<rparr>) of
         Inl err \<Rightarrow> Inl err
       | Inr (new_id, w4) \<Rightarrow> Inr ([hd ?p1, Contig new_id False, last ?p1], w4))"
    using alignPair_general [of ?p1 ?p2 ?e ?w0 ?a ?w0 ?b ?w0] m1 m2 ne rb ag rb2 cov
    by (simp add: Let_def)
  have al: "align ?e (candidates ?e ?c) ?w0 =
      Inr ([Contig 0 False, Contig 100 False, Contig 2 False],
           example_world
             \<lparr>events := [SearchCall (Contig 0 False) [(Contig 2 False, 1)],
                         AlignGlobalCall ?a ?b],
               nextContigID := 101,
               g_newVertices :=
                 [\<lparr>nv_t = Contig 0 False, nv_u = Contig 100 False, nv_v = Contig 2 False,
                   nv_vp = (1710008, 2)\<rparr>],
               fasta :=
                 [\<lparr>fa_id = 100, fa_length = 1710008, fa_coverage = 2,
                   fa_paths = [Some [Contig 1 False], Some [Contig 3 False]],
                   fa_seq = ?a\<rparr>]\<rparr>)"
    unfolding cand align_def using ap
    by (simp add: outputNewContig_def provenance_def search_call_def example_world_def
          example_long_env_def example_env_def Let_def)
  have fill: "fillGap ?e ?c [False, False, False, False] example_world
     = Inr ([Contig 0 False, Contig 100 False, Contig 2 False],
            [True, True, True, True],
            \<lparr>stats = \<lparr>numAmbPaths = 0, numMerged = 1, numNoSolutions = 0,
                      numTooManySolutions = 0, tooComplex = 0, notMerged = 0\<rparr>,
             g_newVertices =
               [\<lparr>nv_t = Contig 0 False, nv_u = Contig 100 False, nv_v = Contig 2 False,
                 nv_vp = (1710008, 2)\<rparr>],
             fasta =
               [\<lparr>fa_id = 100, fa_length = 1710008, fa_coverage = 2,
                 fa_paths = [Some [Contig 1 False], Some [Contig 3 False]],
                 fa_seq = ?a\<rparr>],
             nextContigID = 101,
             events =
               [SearchCall (Contig 0 False) [(Contig 2 False, 1)],
                AlignGlobalCall ?a ?b]\<rparr>)"
  proof -
    have v: "visited ?e ?c < opt_maxCost ?e" unfolding vis opts by simp
    have n: "length (candidates ?e ?c) \<le> opt_numBranches ?e" unfolding cand opts by simp
    have m: "1 < length (candidates ?e ?c)" unfolding cand by simp
    have x: "[Contig 0 False, Contig 100 False, Contig 2 False] \<noteq> []" by simp
    show ?thesis
      unfolding fillGap_merged [OF v n m al x] cand by (simp add: example_world_def)
  qed
  show ?thesis using cand l1 l3 i9 exact fq fill by blast
qed

section \<open>Properties of the gap registry\<close>

lemma node_index_inj: "node_index a = node_index b \<Longrightarrow> a = b"
proof (cases a)
  case (Contig i s)
  note a = this
  show "node_index a = node_index b \<Longrightarrow> a = b"
  proof (cases b)
    case (Contig j t)
    assume "node_index a = node_index b"
    then have "2 * int i + (if s then 1 else 0) = 2 * int j + (if t then 1 else 0)"
      using a Contig by simp
    then have "i = j \<and> s = t" by (auto split: if_splits) presburger+
    then show ?thesis using a Contig by simp
  next
    case (Ambiguous n)
    assume "node_index a = node_index b"
    then show ?thesis using a Ambiguous by (simp split: if_splits)
  qed
next
  case (Ambiguous n)
  note a = this
  show "node_index a = node_index b \<Longrightarrow> a = b"
  proof (cases b)
    case (Contig j t)
    assume "node_index a = node_index b"
    then show ?thesis using a Contig by (simp split: if_splits)
  next
    case (Ambiguous m)
    assume "node_index a = node_index b"
    then show ?thesis using a Ambiguous by simp
  qed
qed

lemma node_lt_total:
  assumes "\<not> node_lt a b" "\<not> node_lt b a"
  shows "a = b"
proof -
  have "node_index a = node_index b" using assms by (simp add: node_lt_def)
  then show ?thesis by (rule node_index_inj)
qed

lemma constraint_lt_irrefl: "\<not> constraint_lt a a"
  by (simp add: constraint_lt_def node_lt_def)

lemma constraint_lt_index:
  "constraint_lt a b =
     (node_index (source a) < node_index (source b)
      \<or> (node_index (source a) = node_index (source b)
          \<and> (node_index (dest a) < node_index (dest b)
              \<or> (node_index (dest a) = node_index (dest b) \<and> dist a < dist b))))"
proof -
  have s: "(source a = source b) = (node_index (source a) = node_index (source b))"
    by (auto dest: node_index_inj)
  have d: "(dest a = dest b) = (node_index (dest a) = node_index (dest b))"
    by (auto dest: node_index_inj)
  show ?thesis unfolding constraint_lt_def node_lt_def s d by blast
qed

lemma constraint_lt_trans:
  "constraint_lt a b \<Longrightarrow> constraint_lt b c \<Longrightarrow> constraint_lt a c"
  unfolding constraint_lt_index by arith

lemma constraint_lt_total:
  assumes "\<not> constraint_lt a b" "\<not> constraint_lt b a"
  shows "a = b"
proof -
  have s: "source a = source b"
    using assms node_lt_total [of "source a" "source b"] by (auto simp: constraint_lt_def)
  have d: "dest a = dest b"
    using assms s node_lt_total [of "dest a" "dest b"] by (auto simp: constraint_lt_def)
  have "dist a = dist b" using assms s d by (auto simp: constraint_lt_def)
  then show ?thesis using s d by simp
qed

lemma map_find_eq: "map_find reg key = map_of reg key"
proof (induction reg)
  case Nil
  then show ?case by simp
next
  case (Cons kv reg)
  obtain k v where kv: "kv = (k, v)" by (cases kv)
  show ?case
    unfolding kv using Cons.IH constraint_lt_total [of key k] constraint_lt_irrefl [of k]
    by auto
qed

lemma map_insert_keys:
  "fst ` set (map_insert key v reg) = insert key (fst ` set reg)"
proof (induction reg)
  case Nil
  then show ?case by simp
next
  case (Cons kv reg)
  obtain k' v' where kv: "kv = (k', v')" by (cases kv)
  show ?case
    unfolding kv using Cons.IH constraint_lt_total [of key k'] by auto
qed

lemma map_insert_sorted:
  "sorted_wrt constraint_lt (map fst reg) \<Longrightarrow>
   sorted_wrt constraint_lt (map fst (map_insert key v reg))"
proof (induction reg)
  case Nil
  then show ?case by simp
next
  case (Cons kv reg)
  obtain k' v' where kv: "kv = (k', v')" by (cases kv)
  have tail: "sorted_wrt constraint_lt (map fst reg)" using Cons.prems by simp
  have above: "\<forall>k \<in> fst ` set reg. constraint_lt k' k"
    using Cons.prems kv by simp
  show ?case
  proof (cases "constraint_lt key k'")
    case True
    then have "\<forall>k \<in> fst ` set reg. constraint_lt key k"
      using above constraint_lt_trans by blast
    then show ?thesis using True Cons.prems kv by simp
  next
    case False
    show ?thesis
    proof (cases "constraint_lt k' key")
      case True
      have "\<forall>k \<in> fst ` set (map_insert key v reg). constraint_lt k' k"
        using above True by (simp add: map_insert_keys)
      then show ?thesis using False True Cons.IH [OF tail] kv by simp
    next
      case no: False
      then show ?thesis using False Cons.prems kv by simp
    qed
  qed
qed

lemma map_insert_values:
  "\<forall>(k, x) \<in> set reg. x = [] \<Longrightarrow> \<forall>(k, x) \<in> set (map_insert key [] reg). x = []"
  by (induction reg) (auto split: if_splits)

lemma sorted_distinct: "sorted_wrt constraint_lt ks \<Longrightarrow> distinct ks"
  by (induction ks) (auto simp: constraint_lt_irrefl)

lemma insert_all_simps [simp]:
  "insert_all [] reg = reg"
  "insert_all (k # ks) reg = insert_all ks (map_insert k [] reg)"
  "insert_all (ks @ ks') reg = insert_all ks' (insert_all ks reg)"
  by (simp_all add: insert_all_def)

lemma insert_all_keys:
  "fst ` set (insert_all ks reg) = set ks \<union> fst ` set reg"
  by (induction ks arbitrary: reg) (auto simp: map_insert_keys)

lemma insert_all_sorted:
  "sorted_wrt constraint_lt (map fst reg) \<Longrightarrow>
   sorted_wrt constraint_lt (map fst (insert_all ks reg))"
  by (induction ks arbitrary: reg) (simp_all add: map_insert_sorted)

lemma insert_all_values:
  "\<forall>(k, x) \<in> set reg. x = [] \<Longrightarrow> \<forall>(k, x) \<in> set (insert_all ks reg). x = []"
proof (induction ks arbitrary: reg)
  case Nil
  then show ?case by simp
next
  case (Cons k ks)
  show ?case using Cons.IH [OF map_insert_values [OF Cons.prems]] by simp
qed

lemma scanPath_eq:
  "scanPath path reg amb = (insert_all (interior_gaps path) reg, amb \<or> interior_gaps path \<noteq> [])"
  by (induction path reg amb rule: scanPath.induct) auto

lemma interior_gaps_short: "length path \<le> 2 \<Longrightarrow> interior_gaps path = []"
proof -
  assume "length path \<le> 2"
  then have "path = [] \<or> (\<exists>a. path = [a]) \<or> (\<exists>a b. path = [a, b])"
    by (cases path; cases "tl path"; cases "tl (tl path)") auto
  then show ?thesis by auto
qed

lemma readPathLoop_eq:
  "readPathLoop records reg isAmb =
     (insert_all (concat (map (\<lambda>(pid, path). interior_gaps path) records)) reg,
      isAmb @ map (\<lambda>(pid, path). interior_gaps path \<noteq> []) records)"
proof (induction records arbitrary: reg isAmb)
  case Nil
  then show ?case by simp
next
  case (Cons r records)
  obtain pid path where r: "r = (pid, path)" by (cases r)
  show ?case unfolding r using Cons.IH
    by (simp add: scanPath_eq interior_gaps_short)
qed

lemma readPath_eq:
  "readPath records =
     (map snd records, map fst records,
      map (\<lambda>(pid, path). interior_gaps path \<noteq> []) records,
      insert_all (concat (map (\<lambda>(pid, path). interior_gaps path) records)) [])"
  by (simp add: readPath_def readPathLoop_eq)


lemma interior_gaps_mem:
  "k \<in> set (interior_gaps path) =
     (\<exists>i. 0 < i \<and> i + 1 < length path \<and> ambiguous (path ! i)
          \<and> k = \<lparr>source = path ! (i - 1), dest = path ! (i + 1),
                  dist = - int (node_id (path ! i))\<rparr>)"
proof (induction path rule: interior_gaps.induct)
  case (1 prev n nxt rest)
  let ?path = "prev # n # nxt # rest"
  let ?tail = "n # nxt # rest"
  let ?key = "\<lambda>p i. \<lparr>source = p ! (i - 1), dest = p ! (i + 1), dist = - int (node_id (p ! i))\<rparr>"
  let ?ok = "\<lambda>p i. 0 < i \<and> i + 1 < length p \<and> ambiguous (p ! i) \<and> k = ?key p i"
  have shift: "?ok ?path (Suc j) = ?ok ?tail j" if pos: "0 < j" for j
  proof -
    obtain j' where j: "j = Suc j'" using pos by (cases j) auto
    show ?thesis unfolding j by simp
  qed
  have first: "?ok ?path 1 = (ambiguous n \<and> k = \<lparr>source = prev, dest = nxt, dist = - int (node_id n)\<rparr>)"
    by simp
  have "(\<exists>i. ?ok ?path i) = (?ok ?path 1 \<or> (\<exists>j. ?ok ?tail j))"
  proof
    assume "\<exists>i. ?ok ?path i"
    then obtain i where i: "?ok ?path i" by blast
    show "?ok ?path 1 \<or> (\<exists>j. ?ok ?tail j)"
    proof (cases "i = 1")
      case True
      then show ?thesis using i by blast
    next
      case False
      have "0 < i" using i by blast
      then have "i = Suc (i - 1)" "0 < i - 1" using False by arith+
      then obtain j where j: "i = Suc j" "0 < j" by blast
      then have "?ok ?tail j" using i shift [of j] by blast
      then show ?thesis by blast
    qed
  next
    assume "?ok ?path 1 \<or> (\<exists>j. ?ok ?tail j)"
    then show "\<exists>i. ?ok ?path i"
    proof
      assume "?ok ?path 1"
      then show ?thesis by blast
    next
      assume "\<exists>j. ?ok ?tail j"
      then obtain j where j: "?ok ?tail j" by blast
      then have "?ok ?path (Suc j)" using shift [of j] by blast
      then show ?thesis by blast
    qed
  qed
  moreover have "k \<in> set (interior_gaps ?path)
      = ((ambiguous n \<and> k = \<lparr>source = prev, dest = nxt, dist = - int (node_id n)\<rparr>)
         \<or> k \<in> set (interior_gaps ?tail))"
    by auto
  ultimately show ?case using "1.IH" first by simp
qed simp_all

section \<open>One resolution for each gap\<close>

lemma fillGap_events:
  assumes "fillGap e c seen w = Inr (r, seen', w')"
  shows "filter is_search_call (events w')
         = filter is_search_call (events w) @ [search_call e c]"
proof (cases "opt_maxCost e \<le> visited e c \<or> opt_numBranches e < length (candidates e c)
              \<or> candidates e c = [] \<or> length (candidates e c) = 1")
  case True
  then show ?thesis using assms
    by (auto simp: fillGap_unfold Let_def search_call_def split: if_splits)
next
  case False
  let ?w0 = "w\<lparr>events := events w @ [search_call e c]\<rparr>"
  from False assms obtain cons w1 where a: "align e (candidates e c) ?w0 = Inr (cons, w1)"
    and w': "w' = w1\<lparr>stats := (stats w1)\<lparr>numMerged := numMerged (stats w1) + 1\<rparr>\<rparr>
           \<or> w' = w1\<lparr>stats := (stats w1)\<lparr>notMerged := notMerged (stats w1) + 1\<rparr>\<rparr>"
    by (auto simp: fillGap_unfold Let_def split: if_splits sum.splits prod.splits)
  have "filter is_search_call (events w1) = filter is_search_call (events ?w0)"
    using align_frame [OF a] by (simp add: same_stats_searches_def)
  then show ?thesis using w' by (auto simp: search_call_def)
qed

lemma resolveAll_events:
  "resolveAll e reg seen w = Inr (reg', seen', w') \<Longrightarrow>
     filter is_search_call (events w')
     = filter is_search_call (events w) @ map (search_call e) (map fst reg)"
proof (induction reg arbitrary: seen w reg' seen' w')
  case Nil
  then show ?case by simp
next
  case (Cons kv reg)
  obtain key v where kv: "kv = (key, v)" by (cases kv)
  from Cons.prems obtain cons s1 w1 rest' where
    f: "fillGap e key seen w = Inr (cons, s1, w1)"
    and r: "resolveAll e reg s1 w1 = Inr (rest', seen', w')"
    unfolding kv by (auto split: sum.splits prod.splits)
  show ?case using fillGap_events [OF f] Cons.IH [OF r] kv by simp
qed

lemma search_call_inj: "search_call e k = search_call e k' \<Longrightarrow> k = k'"
  by (simp add: search_call_def)

lemma count_list_filter: "P x \<Longrightarrow> count_list (filter P xs) x = count_list xs x"
  by (induction xs) auto

lemma count_list_map_distinct:
  assumes "distinct ks" "k \<in> set ks" "\<And>a b. f a = f b \<Longrightarrow> a = b"
  shows "count_list (map f ks) (f k) = 1"
  using assms(1,2)
proof (induction ks)
  case Nil
  then show ?case by simp
next
  case (Cons a ks)
  show ?case
  proof (cases "a = k")
    case True
    then have "k \<notin> set ks" using Cons.prems by simp
    then have "f k \<notin> set (map f ks)" using assms(3) by auto
    then have "count_list (map f ks) (f k) = 0" by (simp add: count_list_0_iff)
    then show ?thesis using True by simp
  next
    case False
    then have "f a \<noteq> f k" using assms(3) by auto
    then show ?thesis using Cons False by simp
  qed
qed

lemma one_entry:
  "distinct (map fst reg) \<Longrightarrow> k \<in> fst ` set reg \<Longrightarrow>
   length (filter (\<lambda>kv. fst kv = k) reg) = 1"
proof (induction reg)
  case Nil
  then show ?case by simp
next
  case (Cons kv reg)
  show ?case
  proof (cases "fst kv = k")
    case True
    then have "k \<notin> fst ` set reg" using Cons.prems by auto
    then have "filter (\<lambda>kv. fst kv = k) reg = []" by (auto simp: filter_empty_conv)
    then show ?thesis using True by simp
  next
    case False
    then show ?thesis using Cons by auto
  qed
qed

lemma is_search_call_search_call: "is_search_call (search_call e k)"
  by (simp add: search_call_def)


lemma alignPair_align_calls:
  "alignPair e solutions w = Inr (r, w') \<Longrightarrow>
   length (filter is_align_call (events w')) \<le> Suc (length (filter is_align_call (events w)))"
  unfolding alignPair_def
  by (auto simp: Let_def same_but_warnings_def
           split: if_splits sum.splits prod.splits
           dest!: mergePath_frame outputNewContig_frame)

lemma alignMulti_align_calls:
  "alignMulti e solutions w = Inr (r, w') \<Longrightarrow>
   length (filter is_align_call (events w')) \<le> Suc (length (filter is_align_call (events w)))"
  unfolding alignMulti_def
  by (auto simp: Let_def same_but_warnings_def
           split: if_splits sum.splits prod.splits
           dest!: ambSeqsLoop_frame outputNewContig_frame)

lemma align_align_calls:
  "align e solutions w = Inr (r, w') \<Longrightarrow>
   length (filter is_align_call (events w')) \<le> Suc (length (filter is_align_call (events w)))"
  unfolding align_def using alignPair_align_calls alignMulti_align_calls
  by (auto split: if_splits)

lemma fillGap_align_calls:
  assumes "fillGap e c seen w = Inr (r, seen', w')"
  shows "length (filter is_align_call (events w'))
         \<le> Suc (length (filter is_align_call (events w)))"
proof (cases "opt_maxCost e \<le> visited e c \<or> opt_numBranches e < length (candidates e c)
              \<or> candidates e c = [] \<or> length (candidates e c) = 1")
  case True
  then show ?thesis using assms
    by (auto simp: fillGap_unfold Let_def search_call_def split: if_splits)
next
  case False
  let ?w0 = "w\<lparr>events := events w @ [search_call e c]\<rparr>"
  from False assms obtain cons w1 where a: "align e (candidates e c) ?w0 = Inr (cons, w1)"
    and w': "w' = w1\<lparr>stats := (stats w1)\<lparr>numMerged := numMerged (stats w1) + 1\<rparr>\<rparr>
           \<or> w' = w1\<lparr>stats := (stats w1)\<lparr>notMerged := notMerged (stats w1) + 1\<rparr>\<rparr>"
    by (auto simp: fillGap_unfold Let_def split: if_splits sum.splits prod.splits)
  show ?thesis using align_align_calls [OF a] w' by (auto simp: search_call_def)
qed

lemma resolveAll_align_calls:
  "resolveAll e reg seen w = Inr (reg', seen', w') \<Longrightarrow>
     length (filter is_align_call (events w'))
     \<le> length (filter is_align_call (events w)) + length reg"
proof (induction reg arbitrary: seen w reg' seen' w')
  case Nil
  then show ?case by simp
next
  case (Cons kv reg)
  obtain key v where kv: "kv = (key, v)" by (cases kv)
  from Cons.prems obtain cons s1 w1 rest' where
    f: "fillGap e key seen w = Inr (cons, s1, w1)"
    and r: "resolveAll e reg s1 w1 = Inr (rest', seen', w')"
    unfolding kv by (auto split: sum.splits prod.splits)
  show ?case using fillGap_align_calls [OF f] Cons.IH [OF r] by simp
qed

lemma readPath_registry:
  "sorted_wrt constraint_lt (map fst (snd (snd (snd (readPath records)))))
   \<and> fst ` set (snd (snd (snd (readPath records))))
     = (\<Union>(pid, path) \<in> set records. set (interior_gaps path))
   \<and> (\<forall>(k, v) \<in> set (snd (snd (snd (readPath records)))). v = [])"
proof -
  let ?ks = "concat (map (\<lambda>(pid, path). interior_gaps path) records)"
  have r: "snd (snd (snd (readPath records))) = insert_all ?ks []"
    by (simp add: readPath_eq)
  have "sorted_wrt constraint_lt (map fst (insert_all ?ks []))"
    by (rule insert_all_sorted) simp
  moreover have "fst ` set (insert_all ?ks [])
     = (\<Union>(pid, path) \<in> set records. set (interior_gaps path))"
    by (auto simp: insert_all_keys)
  moreover have "\<forall>(k, v) \<in> set (insert_all ?ks []). v = []"
    by (rule insert_all_values) simp
  ultimately show ?thesis unfolding r by blast
qed

text \<open>
  Claim C6. When the run completes, the registry holds every gap of every input path
  (the previous node, the next node and the negated identifier of each ambiguous node
  that has both) under exactly one entry, first stored with the empty path; the keys are
  distinct, the constrained search is called exactly once for each key and for nothing
  else, there are no more alignment calls than keys, and every occurrence of a gap looks
  up the one resolution stored under its key.
\<close>

theorem registry_idempotence:
  assumes "main_run e records first_id = Inr res"
  shows "distinct (map fst (out_registry res))
    \<and> map fst (out_registry res) = map fst (snd (snd (snd (readPath records))))
    \<and> (\<forall>(k, v) \<in> set (snd (snd (snd (readPath records)))). v = [])
    \<and> fst ` set (out_registry res) = (\<Union>(pid, path) \<in> set records. set (interior_gaps path))
    \<and> (\<forall>(pid, path) \<in> set records. \<forall>k \<in> set (interior_gaps path).
          length (filter (\<lambda>kv. fst kv = k) (out_registry res)) = 1
        \<and> count_list (out_events res) (search_call e k) = 1
        \<and> (\<exists>v. map_find (out_registry res) k = Some v
                \<and> (\<forall>v'. (k, v') \<in> set (out_registry res) \<longrightarrow> v' = v)))
    \<and> filter is_search_call (out_events res) = map (search_call e) (map fst (out_registry res))
    \<and> length (filter is_align_call (out_events res)) \<le> length (out_registry res)"
proof -
  let ?reg = "snd (snd (snd (readPath records)))"
  from main_run_unfold [OF assms] obtain seen1 w1 where
    r: "resolveAll e ?reg (replicate (length (g_contigs e)) False)
            \<lparr>stats = \<lparr>numAmbPaths = length ?reg, numMerged = 0,
                      numNoSolutions = 0, numTooManySolutions = 0, tooComplex = 0, notMerged = 0\<rparr>,
             g_newVertices = [], fasta = [], nextContigID = first_id, events = []\<rparr>
          = Inr (out_registry res, seen1, w1)"
    and ev: "out_events res = events w1" by blast
  have keys: "map fst (out_registry res) = map fst ?reg"
    using resolveAll_total [OF r] by simp
  have len: "length (out_registry res) = length ?reg"
    using keys by (metis length_map)
  have d: "distinct (map fst (out_registry res))"
    unfolding keys using readPath_registry [of records] sorted_distinct by blast
  have ks: "fst ` set (out_registry res)
            = (\<Union>(pid, path) \<in> set records. set (interior_gaps path))"
  proof -
    have "fst ` set (out_registry res) = set (map fst (out_registry res))" by simp
    also have "\<dots> = fst ` set ?reg" unfolding keys by simp
    finally show ?thesis using readPath_registry [of records] by simp
  qed
  have sc: "filter is_search_call (out_events res)
            = map (search_call e) (map fst (out_registry res))"
    unfolding ev keys using resolveAll_events [OF r] by simp
  have ac: "length (filter is_align_call (out_events res)) \<le> length (out_registry res)"
    unfolding ev len using resolveAll_align_calls [OF r] by simp
  have per: "length (filter (\<lambda>kv. fst kv = k) (out_registry res)) = 1
        \<and> count_list (out_events res) (search_call e k) = 1
        \<and> (\<exists>v. map_find (out_registry res) k = Some v
                \<and> (\<forall>v'. (k, v') \<in> set (out_registry res) \<longrightarrow> v' = v))"
    if k: "k \<in> fst ` set (out_registry res)" for k
  proof -
    have one: "length (filter (\<lambda>kv. fst kv = k) (out_registry res)) = 1"
      by (rule one_entry [OF d k])
    have "count_list (out_events res) (search_call e k)
          = count_list (filter is_search_call (out_events res)) (search_call e k)"
      by (simp add: count_list_filter is_search_call_search_call)
    also have "\<dots> = 1"
      unfolding sc using count_list_map_distinct [OF d _ search_call_inj] k by simp
    finally have cnt: "count_list (out_events res) (search_call e k) = 1" .
    obtain v where v: "(k, v) \<in> set (out_registry res)" using k by auto
    have mf: "map_find (out_registry res) k = Some v"
      unfolding map_find_eq using d v by simp
    have "\<forall>v'. (k, v') \<in> set (out_registry res) \<longrightarrow> v' = v"
      using d v by (meson eq_key_imp_eq_value)
    then show ?thesis using one cnt mf by blast
  qed
  have all: "\<forall>(pid, path) \<in> set records. \<forall>k \<in> set (interior_gaps path).
          length (filter (\<lambda>kv. fst kv = k) (out_registry res)) = 1
        \<and> count_list (out_events res) (search_call e k) = 1
        \<and> (\<exists>v. map_find (out_registry res) k = Some v
                \<and> (\<forall>v'. (k, v') \<in> set (out_registry res) \<longrightarrow> v' = v))"
  proof (intro ballI, clarify)
    fix pid path k
    assume "(pid, path) \<in> set records" "k \<in> set (interior_gaps path)"
    then have "k \<in> fst ` set (out_registry res)" unfolding ks by blast
    then show "length (filter (\<lambda>kv. fst kv = k) (out_registry res)) = 1
        \<and> count_list (out_events res) (search_call e k) = 1
        \<and> (\<exists>v. map_find (out_registry res) k = Some v
                \<and> (\<forall>v'. (k, v') \<in> set (out_registry res) \<longrightarrow> v' = v))"
      by (rule per)
  qed
  show ?thesis using d keys ks all sc ac readPath_registry [of records] by blast
qed

theorem registry_idempotence_witness:
  "main_run (example_env example_search) example_records 100 = Inr example_result
   \<and> \<lparr>source = Contig 0 False, dest = Contig 2 False, dist = - 5\<rparr>
       \<in> set (interior_gaps [Contig 0 False, Ambiguous 5, Contig 2 False, Ambiguous 3, Contig 5 False])
   \<and> \<lparr>source = Contig 0 False, dest = Contig 2 False, dist = - 5\<rparr>
       \<in> set (interior_gaps [Contig 0 False, Ambiguous 5, Contig 2 False])
   \<and> length (filter (\<lambda>kv. fst kv = \<lparr>source = Contig 0 False, dest = Contig 2 False, dist = - 5\<rparr>)
               (out_registry example_result)) = 1
   \<and> count_list (out_events example_result)
        (SearchCall (Contig 0 False) [(Contig 2 False, 1)]) = 1
   \<and> length (out_registry example_result) = 5"
proof -
  let ?e = "example_env example_search"
  let ?k = "\<lparr>source = Contig 0 False, dest = Contig 2 False, dist = - 5\<rparr>"
  let ?p = "[Contig 0 False, Ambiguous 5, Contig 2 False, Ambiguous 3, Contig 5 False]"
  have rec: "(''7'', ?p) \<in> set example_records" by (simp add: example_records_def)
  have k7: "?k \<in> set (interior_gaps ?p)" by simp
  have k9: "?k \<in> set (interior_gaps [Contig 0 False, Ambiguous 5, Contig 2 False])" by simp
  have "\<forall>(pid, path) \<in> set example_records. \<forall>k \<in> set (interior_gaps path).
          length (filter (\<lambda>kv. fst kv = k) (out_registry example_result)) = 1
        \<and> count_list (out_events example_result) (search_call ?e k) = 1
        \<and> (\<exists>v. map_find (out_registry example_result) k = Some v
                \<and> (\<forall>v'. (k, v') \<in> set (out_registry example_result) \<longrightarrow> v' = v))"
    using registry_idempotence [OF example_run] by blast
  then have "length (filter (\<lambda>kv. fst kv = ?k) (out_registry example_result)) = 1
        \<and> count_list (out_events example_result) (search_call ?e ?k) = 1"
    using rec k7 by blast
  moreover have "search_call ?e ?k = SearchCall (Contig 0 False) [(Contig 2 False, 1)]"
    by (simp add: search_call_def example_env_def)
  moreover have "length (out_registry example_result) = 5"
    by (simp add: example_result_def example_registry_def)
  ultimately show ?thesis using example_run k7 k9 by simp
qed

section \<open>Properties of the path loader\<close>

lemma interior_gaps_nonempty:
  "(interior_gaps path \<noteq> []) = (\<exists>i. 0 < i \<and> i + 1 < length path \<and> ambiguous (path ! i))"
proof -
  have "(interior_gaps path \<noteq> []) = (\<exists>k. k \<in> set (interior_gaps path))"
    by (cases "interior_gaps path") auto
  then show ?thesis unfolding interior_gaps_mem by blast
qed

text \<open>
  Claim C9, as amended. \<^verbatim>\<open>readPath\<close> has no check of its own and returns for every
  list of path records: it keeps the paths and their labels, flags a path exactly when
  some node that has both a previous and a next node is ambiguous, and registers exactly
  the constraints of those nodes. An ambiguous node in the first or the last position is
  passed over: no diagnostic, no flag and no registry entry.
\<close>

theorem readPath_interior_only:
  "fst (readPath records) = map snd records
   \<and> fst (snd (readPath records)) = map fst records
   \<and> fst (snd (snd (readPath records)))
     = map (\<lambda>(pid, path). \<exists>i. 0 < i \<and> i + 1 < length path \<and> ambiguous (path ! i)) records
   \<and> fst ` set (snd (snd (snd (readPath records))))
     = {\<lparr>source = path ! (i - 1), dest = path ! (i + 1), dist = - int (node_id (path ! i))\<rparr>
        | pid path i. (pid, path) \<in> set records \<and> 0 < i \<and> i + 1 < length path
                      \<and> ambiguous (path ! i)}"
proof -
  have flags: "fst (snd (snd (readPath records)))
     = map (\<lambda>(pid, path). \<exists>i. 0 < i \<and> i + 1 < length path \<and> ambiguous (path ! i)) records"
    by (simp add: readPath_eq interior_gaps_nonempty)
  have "fst ` set (snd (snd (snd (readPath records))))
        = (\<Union>(pid, path) \<in> set records. set (interior_gaps path))"
    using readPath_registry [of records] by blast
  also have "\<dots> = {\<lparr>source = path ! (i - 1), dest = path ! (i + 1),
                     dist = - int (node_id (path ! i))\<rparr>
        | pid path i. (pid, path) \<in> set records \<and> 0 < i \<and> i + 1 < length path
                      \<and> ambiguous (path ! i)}" (is "?L = ?R")
  proof (rule set_eqI)
    fix k
    have "(k \<in> ?L) = (\<exists>pid path. (pid, path) \<in> set records \<and> k \<in> set (interior_gaps path))"
      by auto
    also have "\<dots> = (\<exists>pid path i. (pid, path) \<in> set records \<and> 0 < i \<and> i + 1 < length path
                      \<and> ambiguous (path ! i)
                      \<and> k = \<lparr>source = path ! (i - 1), dest = path ! (i + 1),
                              dist = - int (node_id (path ! i))\<rparr>)"
      unfolding interior_gaps_mem by blast
    also have "\<dots> = (k \<in> ?R)" by blast
    finally show "(k \<in> ?L) = (k \<in> ?R)" .
  qed
  finally show ?thesis using flags by (simp add: readPath_eq)
qed

text \<open>
  Claim C9 as the spec states it fails: a path of four nodes whose first node has no
  previous node and whose last node has no next node, both ambiguous, is loaded without
  any diagnostic, and the run completes and writes the path as it is.
\<close>

theorem readPath_no_abort_counterexample:
  "readPath [(''1'', [Ambiguous 5, Contig 1 False, Contig 2 False, Ambiguous 3])]
     = ([[Ambiguous 5, Contig 1 False, Contig 2 False, Ambiguous 3]], [''1''], [False], [])
   \<and> main_run (example_env example_search)
        [(''1'', [Ambiguous 5, Contig 1 False, Contig 2 False, Ambiguous 3])] 100
     = Inr \<lparr>out_lines = [PathLine ''1'' [Ambiguous 5, Contig 1 False, Contig 2 False, Ambiguous 3]],
            out_fasta = [],
            out_stats = \<lparr>numAmbPaths = 0, numMerged = 0, numNoSolutions = 0,
                          numTooManySolutions = 0, tooComplex = 0, notMerged = 0\<rparr>,
            out_newVertices = [], out_events = [], out_registry = []\<rparr>"
proof -
  let ?e = "example_env example_search"
  let ?recs = "[(''1'', [Ambiguous 5, Contig 1 False, Contig 2 False, Ambiguous 3])]"
  have k: "0 < opt_k ?e" and c: "g_contigs ?e \<noteq> []" and n: "length (g_contigs ?e) = 7"
    by (simp_all add: example_env_def)
  have rp: "readPath ?recs = (map snd ?recs, map fst ?recs, [False], [])"
    by (simp add: readPath_def)
  have res: "resolveAll ?e [] (replicate (length (g_contigs ?e)) False)
           \<lparr>stats = \<lparr>numAmbPaths = length ([] :: AmbPath2Contig), numMerged = 0, numNoSolutions = 0,
                     numTooManySolutions = 0, tooComplex = 0, notMerged = 0\<rparr>,
            g_newVertices = [], fasta = [], nextContigID = 100, events = []\<rparr>
         = Inr ([], replicate (length (g_contigs ?e)) False,
            \<lparr>stats = \<lparr>numAmbPaths = length ([] :: AmbPath2Contig), numMerged = 0, numNoSolutions = 0,
                     numTooManySolutions = 0, tooComplex = 0, notMerged = 0\<rparr>,
            g_newVertices = [], fasta = [], nextContigID = 100, events = []\<rparr>)"
    by simp
  have rw: "rewritePaths [] (zip (map fst ?recs) (zip (map snd ?recs) [False]))
            = Inr [PathLine ''1'' [Ambiguous 5, Contig 1 False, Contig 2 False, Ambiguous 3]]"
    by simp
  have m: "markSeenPaths (markSeenPaths (replicate 7 False) (map snd ([] :: AmbPath2Contig)) False)
              (map snd ?recs) False = replicate 7 False"
    by (simp add: numeral_eq_Suc)
  have f: "filter (\<lambda>i. replicate 7 False ! i) [0..<7] = []"
    by (simp add: filter_empty_conv)
  show ?thesis
    unfolding main_run_stages [OF k c rp res rw] n m f
    using rp by simp
qed

section \<open>The contigs listed on their own\<close>

lemma markSeen_length: "length (markSeen seen path flag) = length seen"
  by (induction path arbitrary: seen) auto

lemma markSeen_nth:
  "i < length seen \<Longrightarrow>
   markSeen seen path flag ! i = (if i \<in> contig_ids path then flag else seen ! i)"
proof (induction path arbitrary: seen)
  case Nil
  then show ?case by (simp add: contig_ids_def)
next
  case (Cons n path)
  let ?seen = "if \<not> ambiguous n \<and> node_id n < length seen then seen[node_id n := flag] else seen"
  have l: "i < length ?seen" using Cons.prems by simp
  have ids: "contig_ids (n # path) = (if ambiguous n then {} else {node_id n}) \<union> contig_ids path"
    by (auto simp: contig_ids_def)
  have "markSeen seen (n # path) flag ! i = (if i \<in> contig_ids path then flag else ?seen ! i)"
    using Cons.IH [OF l] by simp
  also have "\<dots> = (if i \<in> contig_ids (n # path) then flag else seen ! i)"
    using Cons.prems unfolding ids by (auto simp: nth_list_update)
  finally show ?case .
qed

lemma markSeenPaths_length: "length (markSeenPaths seen paths flag) = length seen"
  by (induction paths arbitrary: seen) (simp_all add: markSeen_length)

lemma markSeenPaths_nth:
  "i < length seen \<Longrightarrow>
   markSeenPaths seen paths flag ! i
     = (if i \<in> (\<Union>p \<in> set paths. contig_ids p) then flag else seen ! i)"
proof (induction paths arbitrary: seen)
  case Nil
  then show ?case by simp
next
  case (Cons p paths)
  have l: "i < length (markSeen seen p flag)" using Cons.prems by (simp add: markSeen_length)
  show ?case using Cons.IH [OF l] Cons.prems by (simp add: markSeen_nth)
qed

lemma fillGap_seen:
  assumes "fillGap e c seen w = Inr (r, seen', w')"
  shows "seen' = (if r \<noteq> [] then markSeenPaths seen (candidates e c) True else seen)"
  using assms
  by (auto simp: fillGap_unfold Let_def split: if_splits sum.splits prod.splits)

lemma resolveAll_seen:
  "resolveAll e reg seen w = Inr (reg', seen', w') \<Longrightarrow>
     length seen' = length seen
     \<and> (\<forall>i < length seen.
           seen' ! i = (seen ! i \<or> (\<exists>(k, v) \<in> set reg'.
                           v \<noteq> [] \<and> i \<in> (\<Union>p \<in> set (candidates e k). contig_ids p))))"
proof (induction reg arbitrary: seen w reg' seen' w')
  case Nil
  then show ?case by auto
next
  case (Cons kv reg)
  obtain key v where kv: "kv = (key, v)" by (cases kv)
  from Cons.prems obtain cons s1 w1 rest' where
    f: "fillGap e key seen w = Inr (cons, s1, w1)"
    and r: "resolveAll e reg s1 w1 = Inr (rest', seen', w')"
    and reg': "reg' = (key, cons) # rest'"
    unfolding kv by (auto split: sum.splits prod.splits)
  have s1: "s1 = (if cons \<noteq> [] then markSeenPaths seen (candidates e key) True else seen)"
    by (rule fillGap_seen [OF f])
  then have l1: "length s1 = length seen" by (simp add: markSeenPaths_length)
  have n1: "s1 ! i = (seen ! i \<or> (cons \<noteq> [] \<and> i \<in> (\<Union>p \<in> set (candidates e key). contig_ids p)))"
    if "i < length seen" for i
    unfolding s1 using that by (simp add: markSeenPaths_nth)
  have ih: "length seen' = length s1
     \<and> (\<forall>i < length s1.
           seen' ! i = (s1 ! i \<or> (\<exists>(k, v) \<in> set rest'.
                           v \<noteq> [] \<and> i \<in> (\<Union>p \<in> set (candidates e k). contig_ids p))))"
    by (rule Cons.IH [OF r])
  show ?case
  proof (intro conjI allI impI)
    show "length seen' = length seen" using ih l1 by simp
  next
    fix i assume i: "i < length seen"
    have "seen' ! i = (s1 ! i \<or> (\<exists>(k, v) \<in> set rest'.
                           v \<noteq> [] \<and> i \<in> (\<Union>p \<in> set (candidates e k). contig_ids p)))"
      using ih i l1 by simp
    then show "seen' ! i = (seen ! i \<or> (\<exists>(k, v) \<in> set reg'.
                           v \<noteq> [] \<and> i \<in> (\<Union>p \<in> set (candidates e k). contig_ids p)))"
      unfolding reg' n1 [OF i] by auto
  qed
qed

lemma rewritePaths_lines:
  "rewritePaths reg items = Inr ls \<Longrightarrow> contig_lines ls = []"
proof (induction items arbitrary: ls)
  case Nil
  then show ?case by simp
next
  case (Cons item items)
  obtain pid path isAmb where item: "item = (pid, path, isAmb)" by (cases item)
  from Cons.prems obtain cur ls' where "rewritePaths reg items = Inr ls'"
    "ls = PathLine pid cur # ls'"
    unfolding item by (auto split: sum.splits if_splits)
  then show ?case using Cons.IH by simp
qed

lemma contig_lines_append:
  "contig_lines (map ContigLine xs @ ls) = xs @ contig_lines ls"
  by (induction xs) simp_all

lemma main_run_lines:
  assumes "main_run e records first_id = Inr res"
  shows "\<exists>seen1 w1. resolveAll e (snd (snd (snd (readPath records))))
            (replicate (length (g_contigs e)) False)
            \<lparr>stats = \<lparr>numAmbPaths = length (snd (snd (snd (readPath records)))), numMerged = 0,
                      numNoSolutions = 0, numTooManySolutions = 0, tooComplex = 0, notMerged = 0\<rparr>,
             g_newVertices = [], fasta = [], nextContigID = first_id, events = []\<rparr>
          = Inr (out_registry res, seen1, w1)
        \<and> contig_lines (out_lines res)
          = filter (\<lambda>i. markSeenPaths (markSeenPaths seen1 (map snd (out_registry res)) False)
                          (map snd records) False ! i)
              [0 ..< length (g_contigs e)]"
  using assms unfolding main_run_def
  by (auto simp: Let_def readPath_def contig_lines_append rewritePaths_lines
           split: if_splits sum.splits prod.splits)

text \<open>
  Claim C2, as amended. When the run completes, the contigs written on a line of their
  own are, in increasing order and once each, exactly the contigs that lie on a candidate
  path of some gap resolved by an alignment (a gap whose stored resolution is not empty)
  and that occur neither in a stored resolution nor in an input path. A contig that no
  path, resolution or such candidate mentions is not written.
\<close>

theorem emitted_contigs:
  assumes "main_run e records first_id = Inr res"
  shows "contig_lines (out_lines res)
         = filter (\<lambda>i. (\<exists>(k, v) \<in> set (out_registry res).
                            v \<noteq> [] \<and> i \<in> (\<Union>p \<in> set (candidates e k). contig_ids p))
                       \<and> i \<notin> (\<Union>(k, v) \<in> set (out_registry res). contig_ids v)
                       \<and> i \<notin> (\<Union>(pid, path) \<in> set records. contig_ids path))
             [0 ..< length (g_contigs e)]"
proof -
  from main_run_lines [OF assms] obtain seen1 w1 where
    r: "resolveAll e (snd (snd (snd (readPath records))))
            (replicate (length (g_contigs e)) False)
            \<lparr>stats = \<lparr>numAmbPaths = length (snd (snd (snd (readPath records)))), numMerged = 0,
                      numNoSolutions = 0, numTooManySolutions = 0, tooComplex = 0, notMerged = 0\<rparr>,
             g_newVertices = [], fasta = [], nextContigID = first_id, events = []\<rparr>
          = Inr (out_registry res, seen1, w1)"
    and cl: "contig_lines (out_lines res)
          = filter (\<lambda>i. markSeenPaths (markSeenPaths seen1 (map snd (out_registry res)) False)
                          (map snd records) False ! i)
              [0 ..< length (g_contigs e)]" by blast
  let ?n = "length (g_contigs e)"
  have len: "length seen1 = ?n" using resolveAll_seen [OF r] by simp
  have s1: "seen1 ! i = (\<exists>(k, v) \<in> set (out_registry res).
                           v \<noteq> [] \<and> i \<in> (\<Union>p \<in> set (candidates e k). contig_ids p))"
    if "i < ?n" for i
    using resolveAll_seen [OF r] that by simp
  have u1: "(\<Union>p \<in> set (map snd (out_registry res)). contig_ids p)
            = (\<Union>(k, v) \<in> set (out_registry res). contig_ids v)" by auto
  have u2: "(\<Union>p \<in> set (map snd records). contig_ids p)
            = (\<Union>(pid, path) \<in> set records. contig_ids path)" by auto
  have pt: "markSeenPaths (markSeenPaths seen1 (map snd (out_registry res)) False)
                          (map snd records) False ! i
            = ((\<exists>(k, v) \<in> set (out_registry res).
                            v \<noteq> [] \<and> i \<in> (\<Union>p \<in> set (candidates e k). contig_ids p))
                       \<and> i \<notin> (\<Union>(k, v) \<in> set (out_registry res). contig_ids v)
                       \<and> i \<notin> (\<Union>(pid, path) \<in> set records. contig_ids path))"
    if i: "i < ?n" for i
  proof -
    have l2: "i < length (markSeenPaths seen1 (map snd (out_registry res)) False)"
      using i len by (simp add: markSeenPaths_length)
    have l1: "i < length seen1" using i len by simp
    show ?thesis
      unfolding markSeenPaths_nth [OF l2] markSeenPaths_nth [OF l1] u1 u2 s1 [OF i]
      by auto
  qed
  show ?thesis unfolding cl by (rule filter_cong) (auto simp: pt)
qed


theorem emitted_contigs_witness:
  "main_run (example_env example_search) example_records 100 = Inr example_result
   \<and> contig_lines (out_lines example_result) = [1]
   \<and> filter (\<lambda>i. (\<exists>(k, v) \<in> set (out_registry example_result).
                            v \<noteq> [] \<and> i \<in> (\<Union>p \<in> set (candidates (example_env example_search) k).
                                                  contig_ids p))
                       \<and> i \<notin> (\<Union>(k, v) \<in> set (out_registry example_result). contig_ids v)
                       \<and> i \<notin> (\<Union>(pid, path) \<in> set example_records. contig_ids path))
             [0 ..< length (g_contigs (example_env example_search))] = [1]"
proof -
  have a: "contig_lines (out_lines example_result)
         = filter (\<lambda>i. (\<exists>(k, v) \<in> set (out_registry example_result).
                            v \<noteq> [] \<and> i \<in> (\<Union>p \<in> set (candidates (example_env example_search) k).
                                                  contig_ids p))
                       \<and> i \<notin> (\<Union>(k, v) \<in> set (out_registry example_result). contig_ids v)
                       \<and> i \<notin> (\<Union>(pid, path) \<in> set example_records. contig_ids path))
             [0 ..< length (g_contigs (example_env example_search))]"
    by (rule emitted_contigs [OF example_run])
  have b: "contig_lines (out_lines example_result) = [1]"
    by (simp add: example_result_def)
  show ?thesis using a b example_run by simp
qed

text \<open>
  Claim C2 as the spec states it fails: in a run on the single path of contigs 0 and 3,
  with no gap, the contigs 1, 2, 4, 5 and 6 are referenced by no path and no resolution,
  yet the output has no line for any of them.
\<close>

theorem emitted_contigs_counterexample:
  "length (g_contigs (example_env example_search)) = 7
   \<and> main_run (example_env example_search) [(''12'', [Contig 0 False, Contig 3 False])] 100
     = Inr \<lparr>out_lines = [PathLine ''12'' [Contig 0 False, Contig 3 False]],
            out_fasta = [],
            out_stats = \<lparr>numAmbPaths = 0, numMerged = 0, numNoSolutions = 0,
                          numTooManySolutions = 0, tooComplex = 0, notMerged = 0\<rparr>,
            out_newVertices = [], out_events = [], out_registry = []\<rparr>"
proof -
  let ?e = "example_env example_search"
  let ?recs = "[(''12'', [Contig 0 False, Contig 3 False])]"
  have k: "0 < opt_k ?e" and c: "g_contigs ?e \<noteq> []" and n: "length (g_contigs ?e) = 7"
    by (simp_all add: example_env_def)
  have rp: "readPath ?recs = (map snd ?recs, map fst ?recs, [False], [])"
    by (simp add: readPath_def)
  have res: "resolveAll ?e [] (replicate (length (g_contigs ?e)) False)
           \<lparr>stats = \<lparr>numAmbPaths = length ([] :: AmbPath2Contig), numMerged = 0, numNoSolutions = 0,
                     numTooManySolutions = 0, tooComplex = 0, notMerged = 0\<rparr>,
            g_newVertices = [], fasta = [], nextContigID = 100, events = []\<rparr>
         = Inr ([], replicate (length (g_contigs ?e)) False,
            \<lparr>stats = \<lparr>numAmbPaths = length ([] :: AmbPath2Contig), numMerged = 0, numNoSolutions = 0,
                     numTooManySolutions = 0, tooComplex = 0, notMerged = 0\<rparr>,
            g_newVertices = [], fasta = [], nextContigID = 100, events = []\<rparr>)"
    by simp
  have rw: "rewritePaths [] (zip (map fst ?recs) (zip (map snd ?recs) [False]))
            = Inr [PathLine ''12'' [Contig 0 False, Contig 3 False]]"
    by simp
  have m: "markSeenPaths (markSeenPaths (replicate 7 False) (map snd ([] :: AmbPath2Contig)) False)
              (map snd ?recs) False = replicate 7 False"
    by (simp add: numeral_eq_Suc)
  have f: "filter (\<lambda>i. replicate 7 False ! i) [0..<7] = []"
    by (simp add: filter_empty_conv)
  show ?thesis
    unfolding main_run_stages [OF k c rp res rw] n m f
    by simp
qed

end
